theory Spec2Isabelle
  imports Main "HOL-Library.AList" "HOL-Library.Sublist"
begin

section \<open>Go values used by both engines\<close>

text \<open>
  A Go \<open>error\<close> is identified with the text its \<open>Error()\<close> method returns; a nillable
  error is an \<open>error option\<close> with \<open>None\<close> for \<open>nil\<close>. A function returning
  \<open>(value, error)\<close> becomes a sum with \<open>Inl\<close> for the error.
\<close>

type_synonym error = string

text \<open>\<open>strings.Contains(s, substr)\<close>: \<open>substr\<close> occurs contiguously in \<open>s\<close>.\<close>

definition Contains :: "string \<Rightarrow> string \<Rightarrow> bool" where
  "Contains s substr = sublist substr s"

text \<open>
  White space as \<open>bytes.TrimSpace\<close> and \<open>strings.Fields\<close> see it on single-byte
  characters: tab, line feed, vertical tab, form feed, carriage return and space. The
  multi-byte UTF-8 space characters are not modelled.
\<close>

definition isSpace :: "char \<Rightarrow> bool" where
  "isSpace c = (c \<in> set [CHR 0x09, CHR 0x0A, CHR 0x0B, CHR 0x0C, CHR 0x0D, CHR 0x20])"

definition TrimSpace :: "string \<Rightarrow> string" where
  "TrimSpace s = rev (dropWhile isSpace (rev (dropWhile isSpace s)))"

text \<open>\<open>Fields_from cur s\<close>: the fields of \<open>s\<close>, where \<open>cur\<close> is the field being read.\<close>

fun Fields_from :: "string \<Rightarrow> string \<Rightarrow> string list" where
  "Fields_from cur [] = (if cur = [] then [] else [cur])"
| "Fields_from cur (c # cs) =
     (if isSpace c then (if cur = [] then Fields_from [] cs else cur # Fields_from [] cs)
      else Fields_from (cur @ [c]) cs)"

definition Fields :: "string \<Rightarrow> string list" where
  "Fields s = Fields_from [] s"

section \<open>The streaming collector (TopStream)\<close>

subsection \<open>Data\<close>

text \<open>
  Modelled from the spec: the declaration of \<open>TopCommandRow\<close> is not in this file. A row
  has a process id and a fixed number of numeric or string metric fields. The collector
  reads only \<open>PID\<close> (an int64, never used in arithmetic here); the other fields are kept
  as strings.
\<close>

record TopCommandRow =
  PID :: int
  columns :: "string list"

text \<open>
  The row parser, the banner predicate and the header table are declared outside this
  file and are parameters of the model.
\<close>

record top_env =
  topRowToSkip :: "string \<Rightarrow> bool"
  TopRowHeaders :: "string list"
  parseTopRow :: "string list \<Rightarrow> error + TopCommandRow"

text \<open>
  What one call of \<open>reader.ReadLine()\<close> delivers: the data and the error.
  \<open>bufio.Reader.ReadLine\<close> returns a line or an error, never both, so a result with an
  error has no data; the type allows more, and the general statements hold for all of it.
\<close>

type_synonym read_result = "string \<times> error option"

text \<open>
  Go maps are references. The store is the list of map objects allocated so far, an
  address is an index into it, and a map object is an association list with distinct keys.
\<close>

type_synonym addr = nat
type_synonym row_map = "(int \<times> TopCommandRow) list"

text \<open>
  Control points of the three routines. \<open>enqueue\<close>: the loop guard \<open>noError()\<close>, the
  read, the section under \<open>rmu\<close> (holding the trimmed line and the read error), the
  final \<open>Signal\<close>, returned. \<open>dequeue\<close>: before \<open>rmu.Lock()\<close>, at the head of the
  outer loop (lock held), suspended in \<open>rcond.Wait()\<close>, signalled and re-acquiring
  the lock, after the loop (lock held), returned. \<open>StartStream\<close>: receiving on
  \<open>readyc\<close>, returned.
\<close>

datatype enqueue_pc = E_guard | E_read | E_locked string "error option" | E_signal | E_done

datatype dequeue_pc = D_lock | D_loop | D_wait | D_woken | D_after | D_done

datatype start_pc = S_recv | S_returned

text \<open>
  The fields of \<open>TopStream\<close>, the store, and the control points. \<open>cmd\<close> is whether
  \<open>str.cmd\<close> is non-nil; \<open>pt\<close> is what the coming reads of the pseudo-terminal will
  deliver (a read of the empty list blocks); \<open>wg\<close> is the wait group's counter;
  \<open>errc\<close> is the buffer of the error channel (capacity one); \<open>readyc\<close> counts the
  executions of \<open>close(str.readyc)\<close>, so the channel is closed when it is positive.
  \<open>consumed\<close> is a history variable that no step reads: the rows popped by
  \<open>dequeue\<close>, oldest first.
\<close>

record TopStream =
  cmd :: bool
  pt :: "read_result list"
  wg :: int
  queue :: "TopCommandRow list"
  pid2TopCommandRow :: addr
  err :: "error option"
  errc :: "error list"
  ready :: bool
  readyc :: nat
  heap :: "row_map list"
  enq :: enqueue_pc
  deq :: dequeue_pc
  start :: start_pc
  consumed :: "TopCommandRow list"

definition snapshot :: "TopStream \<Rightarrow> row_map" where
  "snapshot s = heap s ! pid2TopCommandRow s"

subsection \<open>Error classification and shutdown\<close>

definition expectedErr :: "error option \<Rightarrow> bool" where
  "expectedErr e =
     (case e of
        None \<Rightarrow> True
      | Some es \<Rightarrow>
          Contains es ''signal:'' \<or>
          Contains es ''/dev/ptmx: input/output error'' \<or>
          Contains es ''/dev/ptmx: file already closed'')"

text \<open>
  \<open>close kill werr s\<close>, where \<open>werr\<close> is what \<open>str.cmd.Wait()\<close> returns. The result is
  \<open>None\<close> while \<open>str.wg.Wait()\<close> blocks, that is until \<open>enqueue\<close> has returned. Killing
  the process and closing the pseudo-terminal act on the operating system; what the
  reads deliver afterwards is part of \<open>pt\<close>.
\<close>

definition close :: "bool \<Rightarrow> error option \<Rightarrow> TopStream \<Rightarrow> (error option \<times> TopStream) option" where
  "close kill werr s =
     (if \<not> cmd s then Some (err s, s)
      else if wg s \<noteq> 0 then None
      else
        let e = (case werr of
                   None \<Rightarrow> None
                 | Some es \<Rightarrow>
                     if \<not> kill \<and> Contains es ''exit status'' then None
                     else if kill \<and> expectedErr werr then None
                     else werr)
        in Some (e, s\<lparr>cmd := False\<rparr>))"

definition Stop :: "error option \<Rightarrow> TopStream \<Rightarrow> (error option \<times> TopStream) option" where
  "Stop werr s = close True werr s"

definition Wait :: "error option \<Rightarrow> TopStream \<Rightarrow> (error option \<times> TopStream) option" where
  "Wait werr s = close False werr s"

subsection \<open>The producer\<close>

text \<open>
  \<open>dequeue\<close> holds \<open>rmu\<close> from its \<open>Lock()\<close> to its \<open>Unlock()\<close>, except while it is
  suspended in \<open>Wait()\<close>. Every other section under \<open>rmu\<close> is one step, enabled when
  \<open>dequeue\<close> does not hold the lock; a step that is not enabled leaves the state as it is.
\<close>

definition holds_rmu :: "dequeue_pc \<Rightarrow> bool" where
  "holds_rmu pc = (pc = D_loop \<or> pc = D_after)"

text \<open>\<open>rcond.Signal()\<close> wakes one waiter, and only \<open>dequeue\<close> ever waits.\<close>

definition Signal :: "TopStream \<Rightarrow> TopStream" where
  "Signal s = (if deq s = D_wait then s\<lparr>deq := D_woken\<rparr> else s)"

text \<open>The section of \<open>enqueue\<close> from \<open>str.rmu.Lock()\<close> to the next \<open>str.rmu.Unlock()\<close>.\<close>

definition enqueue_locked :: "top_env \<Rightarrow> string \<Rightarrow> error option \<Rightarrow> TopStream \<Rightarrow> TopStream" where
  "enqueue_locked env line lerr s =
     (let s1 = s\<lparr>err := lerr\<rparr> in
      if line = [] then s1\<lparr>enq := E_guard\<rparr>
      else
        let row = Fields line in
        if length row \<noteq> length (TopRowHeaders env) then s1\<lparr>enq := E_guard\<rparr>
        else
          case parseTopRow env row of
            Inl rerr \<Rightarrow> s1\<lparr>err := Some rerr, enq := E_guard\<rparr>
          | Inr r \<Rightarrow>
              let s2 = s1\<lparr>queue := queue s1 @ [r]\<rparr> in
              (if length (queue s2) = 1 then Signal s2 else s2)\<lparr>enq := E_guard\<rparr>)"

definition enqueue_step :: "top_env \<Rightarrow> TopStream \<Rightarrow> TopStream" where
  "enqueue_step env s =
     (case enq s of
        E_guard \<Rightarrow>
          if holds_rmu (deq s) then s
          else if err s = None then s\<lparr>enq := E_read\<rparr> else s\<lparr>enq := E_signal\<rparr>
      | E_read \<Rightarrow>
          (case pt s of
             [] \<Rightarrow> s
           | (data, lerr) # rest \<Rightarrow>
               let data' = TrimSpace data in
               if topRowToSkip env data' then s\<lparr>pt := rest, enq := E_guard\<rparr>
               else s\<lparr>pt := rest, enq := E_locked data' lerr\<rparr>)
      | E_locked line lerr \<Rightarrow>
          if holds_rmu (deq s) then s else enqueue_locked env line lerr s
      | E_signal \<Rightarrow> (Signal s)\<lparr>enq := E_done, wg := wg s - 1\<rparr>
      | E_done \<Rightarrow> s)"

subsection \<open>The consumer\<close>

text \<open>One pass through the body of the outer loop of \<open>dequeue\<close>, from a non-empty queue.\<close>

definition dequeue_row :: "TopStream \<Rightarrow> TopStream" where
  "dequeue_row s =
     (let row = hd (queue s);
          a = pid2TopCommandRow s;
          s1 = s\<lparr>queue := tl (queue s), consumed := consumed s @ [row]\<rparr>;
          s2 = s1\<lparr>heap := (heap s1)[a := AList.update (PID row) row (heap s1 ! a)]\<rparr>
      in if \<not> ready s2 then s2\<lparr>ready := True, readyc := Suc (readyc s2)\<rparr> else s2)"

text \<open>
  After the loop: the error is reclassified and, when it remains, sent on \<open>errc\<close>; the
  send blocks while the buffer is full.
\<close>

definition dequeue_after :: "TopStream \<Rightarrow> TopStream" where
  "dequeue_after s =
     (let s1 = (if expectedErr (err s) then s\<lparr>err := None\<rparr> else s) in
      case err s1 of
        None \<Rightarrow> s1\<lparr>deq := D_done\<rparr>
      | Some e \<Rightarrow> if errc s1 = [] then s1\<lparr>errc := [e], deq := D_done\<rparr> else s)"

definition dequeue_step :: "TopStream \<Rightarrow> TopStream" where
  "dequeue_step s =
     (case deq s of
        D_lock \<Rightarrow> s\<lparr>deq := D_loop\<rparr>
      | D_loop \<Rightarrow>
          if queue s = [] \<and> err s = None then s\<lparr>deq := D_wait\<rparr>
          else if queue s = [] then s\<lparr>deq := D_after\<rparr>
          else dequeue_row s
      | D_wait \<Rightarrow> s
      | D_woken \<Rightarrow> s\<lparr>deq := D_loop\<rparr>
      | D_after \<Rightarrow> dequeue_after s
      | D_done \<Rightarrow> s)"

subsection \<open>Start, and the interleaving of the three routines\<close>

text \<open>The receive \<open><-str.readyc\<close>: nothing is ever sent, so it returns once the channel is closed.\<close>

definition start_step :: "TopStream \<Rightarrow> TopStream" where
  "start_step s =
     (case start s of
        S_recv \<Rightarrow> if 0 < readyc s then s\<lparr>start := S_returned\<rparr> else s
      | S_returned \<Rightarrow> s)"

text \<open>The state \<open>StartStream\<close> builds before it starts the two routines.\<close>

definition new_TopStream :: "read_result list \<Rightarrow> TopStream" where
  "new_TopStream input =
     \<lparr>cmd = True, pt = input, wg = 1, queue = [], pid2TopCommandRow = 0, err = None,
      errc = [], ready = False, readyc = 0, heap = [[]],
      enq = E_guard, deq = D_lock, start = S_recv, consumed = []\<rparr>"

text \<open>
  \<open>StartStream\<close> up to the receive on \<open>readyc\<close>: \<open>cerr\<close> and \<open>perr\<close> are what
  \<open>cfg.createCmd()\<close> and \<open>pty.Start\<close> return.
\<close>

definition StartStream :: "error option \<Rightarrow> error option \<Rightarrow> read_result list \<Rightarrow> error + TopStream" where
  "StartStream cerr perr input =
     (case cerr of
        Some e \<Rightarrow> Inl e
      | None \<Rightarrow> (case perr of Some e \<Rightarrow> Inl e | None \<Rightarrow> Inr (new_TopStream input)))"

datatype routine = Enqueue | Dequeue | Start

fun step :: "top_env \<Rightarrow> routine \<Rightarrow> TopStream \<Rightarrow> TopStream" where
  "step env Enqueue s = enqueue_step env s"
| "step env Dequeue s = dequeue_step s"
| "step env Start s = start_step s"

text \<open>A schedule lists which routine takes the next step.\<close>

fun run :: "top_env \<Rightarrow> routine list \<Rightarrow> TopStream \<Rightarrow> TopStream" where
  "run env [] s = s"
| "run env (t # ts) s = run env ts (step env t s)"

subsection \<open>Latest\<close>

text \<open>
  \<open>Latest\<close> allocates a map and copies the snapshot into it entry by entry, under the
  read lock; it returns the new reference. It waits while \<open>dequeue\<close> holds the lock
  (\<open>None\<close>). \<open>map_assign\<close> is the assignment \<open>m[k] = v\<close> through a reference.
\<close>

definition map_assign :: "addr \<Rightarrow> int \<Rightarrow> TopCommandRow \<Rightarrow> TopStream \<Rightarrow> TopStream" where
  "map_assign a k v s = s\<lparr>heap := (heap s)[a := AList.update k v (heap s ! a)]\<rparr>"

definition make_map :: "TopStream \<Rightarrow> addr \<times> TopStream" where
  "make_map s = (length (heap s), s\<lparr>heap := heap s @ [[]]\<rparr>)"

definition Latest :: "TopStream \<Rightarrow> (addr \<times> TopStream) option" where
  "Latest s =
     (if holds_rmu (deq s) then None
      else
        let (cm, s1) = make_map s in
        Some (cm, fold (\<lambda>(k, v). map_assign cm k v) (snapshot s1) s1))"

subsection \<open>Rows of an input, and the end of a run\<close>

text \<open>The row a line yields when it reaches the queue, as \<open>enqueue\<close> decides it.\<close>

definition row_of_line :: "top_env \<Rightarrow> string \<Rightarrow> TopCommandRow option" where
  "row_of_line env line =
     (if line = [] then None
      else if length (Fields line) \<noteq> length (TopRowHeaders env) then None
      else (case parseTopRow env (Fields line) of Inl rerr \<Rightarrow> None | Inr r \<Rightarrow> Some r))"

definition row_of_read :: "top_env \<Rightarrow> read_result \<Rightarrow> TopCommandRow option" where
  "row_of_read env rd =
     (if topRowToSkip env (TrimSpace (fst rd)) then None
      else row_of_line env (TrimSpace (fst rd)))"

definition rows_of :: "top_env \<Rightarrow> read_result list \<Rightarrow> TopCommandRow list" where
  "rows_of env rds = List.map_filter (row_of_read env) rds"

text \<open>A well-formed line: read without error, not a banner, and parsed into a row.\<close>

definition well_formed :: "top_env \<Rightarrow> read_result \<Rightarrow> bool" where
  "well_formed env rd = (snd rd = None \<and> row_of_read env rd \<noteq> None)"

text \<open>The last row for a process id in a sequence of rows.\<close>

definition last_row :: "int \<Rightarrow> TopCommandRow list \<Rightarrow> TopCommandRow option" where
  "last_row p rs = find (\<lambda>r. PID r = p) (rev rs)"

text \<open>Nothing is left to read, in hand or queued.\<close>

definition drained :: "TopStream \<Rightarrow> bool" where
  "drained s = (pt s = [] \<and> queue s = [] \<and> (case enq s of E_locked l e \<Rightarrow> False | _ \<Rightarrow> True))"

section \<open>The socket fan-out query (GetSS)\<close>

subsection \<open>Data\<close>

text \<open>
  Modelled from the spec: the declarations of \<open>NetTCP\<close>, \<open>EntryFilter\<close>,
  \<open>TransportProtocol\<close>, \<open>Stat\<close> and \<open>Uptime\<close> are not in this file. A raw connection
  carries the numeric id of its user, local and remote address and port, and the
  connection state; a filter is an explicit process id or a predicate on the program
  name, the two protocol family toggles, the two port filters and the result cap. They
  are given the fields this file reads. \<open>SSEntry\<close> and \<open>user.User\<close> are as declared.
  Fields called \<open>PID\<close>, \<open>LocalPort\<close> and \<open>RemotePort\<close> in both \<open>SSEntry\<close> and
  \<open>EntryFilter\<close> carry the prefix \<open>ft_\<close> in the filter, and \<open>SSEntry.PID\<close> and
  \<open>SSEntry.User\<close> are \<open>SS_PID\<close> and \<open>SS_User\<close>.
\<close>

datatype TransportProtocol = TypeTCP | TypeTCP6

record User =
  user_Uid :: string
  user_Gid :: string
  Username :: string
  user_Name :: string
  user_HomeDir :: string

record NetTCP =
  Type :: string
  Uid :: nat
  LocalAddressParsedIPHost :: string
  LocalAddressParsedIPPort :: int
  RemAddressParsedIPHost :: string
  RemAddressParsedIPPort :: int
  StParsedStatus :: string

record SSEntry =
  Protocol :: string
  Program :: string
  State :: string
  SS_PID :: int
  LocalIP :: string
  LocalPort :: int
  RemoteIP :: string
  RemotePort :: int
  SS_User :: User

record EntryFilter =
  ProgramMatchFunc :: "(string \<Rightarrow> bool) option"
  ft_PID :: int
  TCP :: bool
  TCP6 :: bool
  ft_LocalPort :: int
  ft_RemotePort :: int
  TopLimit :: int

record Stat =
  Comm :: string

type_synonym Uptime = nat

text \<open>
  The operating system as the query reads it, taken as one fixed snapshot for the
  duration of a call: these functions are declared outside this file.
\<close>

record ss_env =
  ListPIDs :: "error + int list"
  GetUptime :: "error + Uptime"
  GetStat :: "int \<Rightarrow> Uptime \<Rightarrow> error + Stat"
  GetNetTCP :: "int \<Rightarrow> TransportProtocol \<Rightarrow> error + NetTCP list"
  GetProgram :: "int \<Rightarrow> error + string"
  LookupId :: "string \<Rightarrow> error + User"

text \<open>\<open>fmt.Sprintf("%d", n)\<close> for an unsigned \<open>n\<close>.\<close>

fun Sprintf_d :: "nat \<Rightarrow> string" where
  "Sprintf_d n =
     (if n < 10 then [char_of (48 + n)]
      else Sprintf_d (n div 10) @ [char_of (48 + n mod 10)])"

declare Sprintf_d.simps [simp del]

subsection \<open>getSSEntry\<close>

text \<open>The loop over the socket table, with the entries collected so far.\<close>

fun getSSEntry_loop ::
  "ss_env \<Rightarrow> string \<Rightarrow> int \<Rightarrow> int \<Rightarrow> int \<Rightarrow> NetTCP list \<Rightarrow> SSEntry list \<Rightarrow> error + SSEntry list" where
  "getSSEntry_loop env pname pid lport rport [] acc = Inr acc"
| "getSSEntry_loop env pname pid lport rport (elem # nss) acc =
     (case LookupId env (Sprintf_d (Uid elem)) of
        Inl uerr \<Rightarrow> Inl uerr
      | Inr u \<Rightarrow>
          if 0 < lport \<and> lport \<noteq> LocalAddressParsedIPPort elem
          then getSSEntry_loop env pname pid lport rport nss acc
          else if 0 < rport \<and> rport \<noteq> RemAddressParsedIPPort elem
          then getSSEntry_loop env pname pid lport rport nss acc
          else getSSEntry_loop env pname pid lport rport nss
                 (acc @ [\<lparr>Protocol = Type elem, Program = pname, State = StParsedStatus elem,
                          SS_PID = pid, LocalIP = LocalAddressParsedIPHost elem,
                          LocalPort = LocalAddressParsedIPPort elem,
                          RemoteIP = RemAddressParsedIPHost elem,
                          RemotePort = RemAddressParsedIPPort elem, SS_User = u\<rparr>]))"

definition getSSEntry ::
  "ss_env \<Rightarrow> int \<Rightarrow> TransportProtocol \<Rightarrow> int \<Rightarrow> int \<Rightarrow> error + SSEntry list" where
  "getSSEntry env pid tp lport rport =
     (case GetNetTCP env pid tp of
        Inl nerr \<Rightarrow> Inl nerr
      | Inr nss \<Rightarrow>
          (case GetProgram env pid of
             Inl perr \<Rightarrow> Inl perr
           | Inr pname \<Rightarrow> getSSEntry_loop env pname pid lport rport nss []))"

subsection \<open>The workers\<close>

text \<open>
  Control points of a worker. With the process ids known (\<open>Direct\<close>): started, entries
  fetched, about to append, returned. When processes are matched by program
  (\<open>ByProgram\<close>, with the uptime read before the workers start): started, program
  matched, cap checked and about to fetch, about to append, returned. The sections
  under \<open>pmu\<close> (the cap check and the append) are one step each.
\<close>

datatype worker_pc =
  W_start | W_fetched "SSEntry list" | W_matched | W_fetch | W_append "SSEntry list" | W_done

datatype mode = Direct | ByProgram Uptime

record worker =
  w_pid :: int
  w_tp :: TransportProtocol
  w_pc :: worker_pc

text \<open>
  The state shared by \<open>GetSS\<close> and its workers: the result list, the wait group's
  counter, the workers, and whether a worker has panicked (which ends the program).
\<close>

record ss_state =
  sss :: "SSEntry list"
  ss_wg :: int
  workers :: "worker list"
  crashed :: bool
  ss_mode :: mode

definition set_pc :: "nat \<Rightarrow> worker_pc \<Rightarrow> ss_state \<Rightarrow> ss_state" where
  "set_pc i pc s = s\<lparr>workers := (workers s)[i := (workers s ! i)\<lparr>w_pc := pc\<rparr>]\<rparr>"

text \<open>A worker returns: its deferred \<open>wg.Done()\<close> runs.\<close>

definition worker_return :: "nat \<Rightarrow> ss_state \<Rightarrow> ss_state" where
  "worker_return i s = (set_pc i W_done s)\<lparr>ss_wg := ss_wg s - 1\<rparr>"

definition cap_reached :: "EntryFilter \<Rightarrow> ss_state \<Rightarrow> bool" where
  "cap_reached ft s = (0 < TopLimit ft \<and> TopLimit ft \<le> int (length (sss s)))"

definition worker_step :: "ss_env \<Rightarrow> EntryFilter \<Rightarrow> nat \<Rightarrow> ss_state \<Rightarrow> ss_state" where
  "worker_step env ft i s =
     (if crashed s \<or> length (workers s) \<le> i then s
      else
        let w = workers s ! i in
        case w_pc w of
          W_start \<Rightarrow>
            (case ss_mode s of
               Direct \<Rightarrow>
                 (case getSSEntry env (w_pid w) (w_tp w) (ft_LocalPort ft) (ft_RemotePort ft) of
                    Inl e \<Rightarrow> worker_return i s
                  | Inr ents \<Rightarrow> set_pc i (W_fetched ents) s)
             | ByProgram up \<Rightarrow>
                 (case GetStat env (w_pid w) up of
                    Inl e \<Rightarrow> worker_return i s
                  | Inr stat \<Rightarrow>
                      (case ProgramMatchFunc ft of
                         None \<Rightarrow> s\<lparr>crashed := True\<rparr>
                       | Some f \<Rightarrow>
                           if \<not> f (Comm stat) then worker_return i s
                           else set_pc i W_matched s)))
        | W_fetched ents \<Rightarrow>
            if cap_reached ft s then worker_return i s else set_pc i (W_append ents) s
        | W_matched \<Rightarrow>
            if cap_reached ft s then worker_return i s else set_pc i W_fetch s
        | W_fetch \<Rightarrow>
            (case getSSEntry env (w_pid w) (w_tp w) (ft_LocalPort ft) (ft_RemotePort ft) of
               Inl e \<Rightarrow> worker_return i s
             | Inr ents \<Rightarrow> set_pc i (W_append ents) s)
        | W_append ents \<Rightarrow> worker_return i (s\<lparr>sss := sss s @ ents\<rparr>)
        | W_done \<Rightarrow> s)"

subsection \<open>GetSS\<close>

text \<open>The \<open>switch\<close> that resolves the process ids, on the filter after \<open>applyOpts\<close>.\<close>

definition candidates :: "ss_env \<Rightarrow> EntryFilter \<Rightarrow> error + int list" where
  "candidates env ft =
     (if ProgramMatchFunc ft = None \<and> ft_PID ft < 1 then ListPIDs env
      else if 0 < ft_PID ft then Inr [ft_PID ft]
      else Inr [])"

text \<open>The workers the loop over the process ids starts, and what is added to the wait group.\<close>

definition spawn :: "EntryFilter \<Rightarrow> int list \<Rightarrow> worker list" where
  "spawn ft pids =
     concat (map (\<lambda>pid.
       (if TCP ft then [\<lparr>w_pid = pid, w_tp = TypeTCP, w_pc = W_start\<rparr>] else []) @
       (if TCP6 ft then [\<lparr>w_pid = pid, w_tp = TypeTCP6, w_pc = W_start\<rparr>] else [])) pids)"

definition wg_added :: "EntryFilter \<Rightarrow> int list \<Rightarrow> int" where
  "wg_added ft pids = int (length pids) + (if TCP ft \<and> TCP6 ft then int (length pids) else 0)"

definition GetSS_start :: "ss_env \<Rightarrow> EntryFilter \<Rightarrow> error + ss_state" where
  "GetSS_start env ft =
     (case candidates env ft of
        Inl e \<Rightarrow> Inl e
      | Inr pids \<Rightarrow>
          if 0 < length pids
          then Inr \<lparr>sss = [], ss_wg = wg_added ft pids, workers = spawn ft pids,
                    crashed = False, ss_mode = Direct\<rparr>
          else
            (case ListPIDs env of
               Inl e \<Rightarrow> Inl e
             | Inr pids' \<Rightarrow>
                 (case GetUptime env of
                    Inl e \<Rightarrow> Inl e
                  | Inr up \<Rightarrow>
                      Inr \<lparr>sss = [], ss_wg = wg_added ft pids', workers = spawn ft pids',
                           crashed = False, ss_mode = ByProgram up\<rparr>)))"

text \<open>A schedule lists the index of the worker that takes the next step.\<close>

fun ss_run :: "ss_env \<Rightarrow> EntryFilter \<Rightarrow> nat list \<Rightarrow> ss_state \<Rightarrow> ss_state" where
  "ss_run env ft [] s = s"
| "ss_run env ft (i # sched) s = ss_run env ft sched (worker_step env ft i s)"

text \<open>The truncation after \<open>wg.Wait()\<close>.\<close>

definition truncate_top :: "EntryFilter \<Rightarrow> SSEntry list \<Rightarrow> SSEntry list" where
  "truncate_top ft es =
     (if 0 < TopLimit ft \<and> TopLimit ft < int (length es) then take (nat (TopLimit ft)) es else es)"

text \<open>
  \<open>GetSS\<close> under a schedule of its workers. \<open>None\<close>: \<open>wg.Wait()\<close> has not returned when
  the schedule ends (the counter is not zero), or a worker has panicked.
\<close>

definition GetSS :: "ss_env \<Rightarrow> EntryFilter \<Rightarrow> nat list \<Rightarrow> (SSEntry list \<times> error option) option" where
  "GetSS env ft sched =
     (case GetSS_start env ft of
        Inl e \<Rightarrow> Some ([], Some e)
      | Inr s0 \<Rightarrow>
          let s = ss_run env ft sched s0 in
          if crashed s \<or> ss_wg s \<noteq> 0 then None
          else Some (truncate_top ft (sss s), None))"

section \<open>Invariants of the collector\<close>

text \<open>\<open>enqueue\<close> has passed its guard and is not yet done with the line.\<close>

definition reading :: "enqueue_pc \<Rightarrow> bool" where
  "reading pc = (case pc of E_read \<Rightarrow> True | E_locked l e \<Rightarrow> True | _ \<Rightarrow> False)"

text \<open>The rows that the line in hand and the lines not yet read will add to the queue.\<close>

definition pending :: "top_env \<Rightarrow> TopStream \<Rightarrow> TopCommandRow list" where
  "pending env s =
     (case enq s of
        E_locked line lerr \<Rightarrow> (case row_of_line env line of None \<Rightarrow> [] | Some r \<Rightarrow> [r])
      | _ \<Rightarrow> []) @ rows_of env (pt s)"

text \<open>Storing rows into a map one after the other, as \<open>dequeue\<close> does.\<close>

definition store_rows :: "TopCommandRow list \<Rightarrow> row_map \<Rightarrow> row_map" where
  "store_rows rs m = fold (\<lambda>r. AList.update (PID r) r) rs m"

text \<open>
  What holds in every state of a run from \<open>new_TopStream input\<close>, with \<open>R\<close> the rows of
  the input: consumed, queued and pending rows make up \<open>R\<close> in this order; the snapshot is
  the consumed rows stored in order; the gate is shut exactly while nothing is consumed;
  \<open>enqueue\<close> reads only while no error is set; \<open>StartStream\<close> has returned only after
  the gate fired; the error channel holds at most one error, sent by \<open>dequeue\<close> on its
  way out; \<open>dequeue\<close> is not left waiting once \<open>enqueue\<close> has returned, and the
  error that made \<open>enqueue\<close> leave its loop stays set until \<open>dequeue\<close> returns.
\<close>

definition collector_inv :: "top_env \<Rightarrow> TopCommandRow list \<Rightarrow> TopStream \<Rightarrow> bool" where
  "collector_inv env R s =
     (consumed s @ queue s @ pending env s = R \<and>
      pid2TopCommandRow s < length (heap s) \<and>
      snapshot s = store_rows (consumed s) [] \<and>
      ready s = (consumed s \<noteq> []) \<and>
      readyc s = (if consumed s = [] then 0 else 1) \<and>
      (reading (enq s) \<longrightarrow> err s = None) \<and>
      (start s = S_returned \<longrightarrow> 0 < readyc s) \<and>
      length (errc s) \<le> 1 \<and> (errc s \<noteq> [] \<longrightarrow> deq s = D_done) \<and>
      (enq s = E_done \<longrightarrow> deq s \<noteq> D_wait) \<and>
      ((enq s = E_signal \<or> enq s = E_done) \<and> deq s \<noteq> D_done \<longrightarrow> err s \<noteq> None))"

text \<open>
  The gate is shut for good: nothing has been consumed, and either \<open>dequeue\<close> has
  returned, or the queue is empty with the error set and \<open>enqueue\<close> about to leave.
\<close>

definition gate_shut :: "TopStream \<Rightarrow> bool" where
  "gate_shut s =
     (\<not> ready s \<and> readyc s = 0 \<and> start s = S_recv \<and> consumed s = [] \<and>
      (deq s = D_done \<or> (queue s = [] \<and> err s \<noteq> None \<and> \<not> reading (enq s))))"

text \<open>Between two lines: \<open>enqueue\<close> at its guard, \<open>dequeue\<close> waiting, nothing queued.\<close>

definition idle :: "TopStream \<Rightarrow> bool" where
  "idle s = (enq s = E_guard \<and> deq s = D_wait \<and> err s = None \<and> queue s = [])"

section \<open>An instance of the collector's parameters\<close>

text \<open>
  A three-column report whose first column is the process id, for evaluating the model
  on concrete lines.
\<close>

definition is_digit :: "char \<Rightarrow> bool" where
  "is_digit c = (48 \<le> (of_char c :: nat) \<and> (of_char c :: nat) \<le> 57)"

definition demo_parse :: "string list \<Rightarrow> error + TopCommandRow" where
  "demo_parse row =
     (case row of
        [] \<Rightarrow> Inl ''empty row''
      | p # cols \<Rightarrow>
          if p \<noteq> [] \<and> list_all is_digit p
          then Inr \<lparr>PID = foldl (\<lambda>a c. 10 * a + (int (of_char c) - 48)) 0 p, columns = cols\<rparr>
          else Inl ''invalid process id'')"

definition demo_env :: top_env where
  "demo_env =
     \<lparr>topRowToSkip = (\<lambda>d. prefix ''top - '' d \<or> prefix ''PID '' d),
      TopRowHeaders = [''PID'', ''CPU'', ''MEM''],
      parseTopRow = demo_parse\<rparr>"

definition demo_lines :: "read_result list" where
  "demo_lines = [(''1 2.0 1.0'', None), (''2 5.0 3.0'', None), (''1 9.0 4.0'', None)]"

text \<open>
  The schedule in which \<open>dequeue\<close> first goes to wait and every line is then read, queued
  and consumed before the next one is read.
\<close>

definition line_round :: "routine list" where
  "line_round = [Enqueue, Enqueue, Enqueue, Dequeue, Dequeue, Dequeue]"

definition in_turn :: "read_result list \<Rightarrow> routine list" where
  "in_turn input = [Dequeue, Dequeue] @ concat (map (\<lambda>rd. line_round) input)"

text \<open>Inputs and states on which the model is evaluated.\<close>

definition early_error_lines :: "read_result list" where
  "early_error_lines = [(''1 2.0 1.0'', None), ([], Some ''EOF'')]"

definition failed_start_lines :: "read_result list" where
  "failed_start_lines = [([], Some ''EOF'')]"

definition pty_error_lines :: "read_result list" where
  "pty_error_lines = [([], Some ''read /dev/ptmx: input/output error'')]"

definition pty_error_twice :: "read_result list" where
  "pty_error_twice =
     [([], Some ''read /dev/ptmx: input/output error''),
      ([], Some ''read /dev/ptmx: input/output error'')]"

definition short_line :: "read_result list" where
  "short_line = [(''7 1.5'', None)]"

definition demo_state :: TopStream where
  "demo_state = run demo_env (in_turn demo_lines) (new_TopStream demo_lines)"

definition noise_state :: TopStream where
  "noise_state = run demo_env [Enqueue] (new_TopStream short_line)"

definition joined_state :: TopStream where
  "joined_state =
     run demo_env [Enqueue, Enqueue, Enqueue, Enqueue, Enqueue] (new_TopStream pty_error_lines)"

section \<open>Invariants of the query\<close>

text \<open>Every entry of a list passes the port filters that are set.\<close>

definition ports_match :: "int \<Rightarrow> int \<Rightarrow> SSEntry list \<Rightarrow> bool" where
  "ports_match lport rport es =
     (\<forall>x \<in> set es. (0 < lport \<longrightarrow> LocalPort x = lport) \<and> (0 < rport \<longrightarrow> RemotePort x = rport))"

text \<open>The entries a worker has fetched and not yet appended.\<close>

definition held_entries :: "worker \<Rightarrow> SSEntry list" where
  "held_entries w = (case w_pc w of W_fetched ents \<Rightarrow> ents | W_append ents \<Rightarrow> ents | _ \<Rightarrow> [])"

definition ports_inv :: "EntryFilter \<Rightarrow> ss_state \<Rightarrow> bool" where
  "ports_inv ft s =
     (ports_match (ft_LocalPort ft) (ft_RemotePort ft) (sss s) \<and>
      (\<forall>w \<in> set (workers s). ports_match (ft_LocalPort ft) (ft_RemotePort ft) (held_entries w)))"

text \<open>The number of workers that have not returned.\<close>

definition unfinished :: "ss_state \<Rightarrow> nat" where
  "unfinished s = length (filter (\<lambda>w. w_pc w \<noteq> W_done) (workers s))"

text \<open>A bound on the steps a worker has left.\<close>

definition pc_rank :: "worker_pc \<Rightarrow> nat" where
  "pc_rank pc =
     (case pc of W_start \<Rightarrow> 4 | W_matched \<Rightarrow> 3 | W_fetched ents \<Rightarrow> 2 | W_fetch \<Rightarrow> 2
      | W_append ents \<Rightarrow> 1 | W_done \<Rightarrow> 0)"

text \<open>The schedule in which each of \<open>n\<close> workers in turn takes four steps.\<close>

definition to_completion :: "nat \<Rightarrow> nat list" where
  "to_completion n = concat (map (\<lambda>i. [i, i, i, i]) [0..<n])"

text \<open>The number of workers \<open>GetSS\<close> starts.\<close>

definition worker_count :: "ss_env \<Rightarrow> EntryFilter \<Rightarrow> nat" where
  "worker_count env ft = (case GetSS_start env ft of Inl e \<Rightarrow> 0 | Inr s0 \<Rightarrow> length (workers s0))"

text \<open>No worker will call a nil \<open>ProgramMatchFunc\<close>.\<close>

definition can_match :: "EntryFilter \<Rightarrow> ss_state \<Rightarrow> bool" where
  "can_match ft s = (ss_mode s = Direct \<or> ProgramMatchFunc ft \<noteq> None \<or> workers s = [])"

section \<open>An instance of the query's parameters\<close>

text \<open>Two processes, each with a socket on port 22 and one on port 80 in either family.\<close>

definition demo_socket :: "int \<Rightarrow> NetTCP" where
  "demo_socket port =
     \<lparr>Type = ''tcp'', Uid = 0, LocalAddressParsedIPHost = ''0.0.0.0'',
      LocalAddressParsedIPPort = port, RemAddressParsedIPHost = ''10.0.0.7'',
      RemAddressParsedIPPort = 50000, StParsedStatus = ''ESTABLISHED''\<rparr>"

definition demo_os :: ss_env where
  "demo_os =
     \<lparr>ListPIDs = Inr [10, 20],
      GetUptime = Inr 100,
      GetStat = (\<lambda>pid up. Inr \<lparr>Comm = ''sshd''\<rparr>),
      GetNetTCP = (\<lambda>pid tp. Inr [demo_socket 22, demo_socket 80]),
      GetProgram = (\<lambda>pid. Inr ''sshd''),
      LookupId = (\<lambda>uid. Inr \<lparr>user_Uid = uid, user_Gid = uid, Username = ''root'',
                              user_Name = ''root'', user_HomeDir = ''/root''\<rparr>)\<rparr>"

definition demo_filter :: EntryFilter where
  "demo_filter =
     \<lparr>ProgramMatchFunc = None, ft_PID = 10, TCP = True, TCP6 = True,
      ft_LocalPort = 22, ft_RemotePort = 0, TopLimit = 1\<rparr>"

definition no_family_filter :: EntryFilter where
  "no_family_filter = demo_filter\<lparr>TCP := False, TCP6 := False\<rparr>"

definition demo_entry :: SSEntry where
  "demo_entry =
     \<lparr>Protocol = ''tcp'', Program = ''sshd'', State = ''ESTABLISHED'', SS_PID = 10,
      LocalIP = ''0.0.0.0'', LocalPort = 22, RemoteIP = ''10.0.0.7'', RemotePort = 50000,
      SS_User = \<lparr>user_Uid = ''0'', user_Gid = ''0'', Username = ''root'',
                 user_Name = ''root'', user_HomeDir = ''/root''\<rparr>\<rparr>"

section \<open>Properties of the collector\<close>

subsection \<open>Runs and invariants\<close>

lemma run_append: "run env (a @ b) s = run env b (run env a s)"
  by (induction a arbitrary: s) simp_all

lemma rows_of_Cons:
  "rows_of env (rd # rds) =
     (case row_of_read env rd of None \<Rightarrow> rows_of env rds | Some r \<Rightarrow> r # rows_of env rds)"
  by (simp add: rows_of_def split: option.splits)

lemma inv_init: "collector_inv env (rows_of env input) (new_TopStream input)"
  by (simp add: collector_inv_def new_TopStream_def pending_def snapshot_def store_rows_def
      reading_def)

lemma inv_enqueue: "collector_inv env R s \<Longrightarrow> collector_inv env R (enqueue_step env s)"
  by (cases "enq s")
    (auto simp: collector_inv_def enqueue_step_def enqueue_locked_def pending_def snapshot_def
      reading_def Signal_def rows_of_Cons row_of_read_def row_of_line_def Let_def
      split: list.splits sum.splits option.splits if_splits)

lemma inv_dequeue: "collector_inv env R s \<Longrightarrow> collector_inv env R (dequeue_step s)"
  by (cases "deq s")
    (auto simp: collector_inv_def dequeue_step_def dequeue_row_def dequeue_after_def pending_def
      snapshot_def store_rows_def Let_def split: list.splits option.splits if_splits)

lemma inv_start: "collector_inv env R s \<Longrightarrow> collector_inv env R (start_step s)"
  by (cases "start s") (auto simp: collector_inv_def start_step_def pending_def snapshot_def)

lemma inv_step: "collector_inv env R s \<Longrightarrow> collector_inv env R (step env t s)"
  by (cases t) (simp_all add: inv_enqueue inv_dequeue inv_start)

lemma inv_run: "collector_inv env R s \<Longrightarrow> collector_inv env R (run env sched s)"
  by (induction sched arbitrary: s) (simp_all add: inv_step)

lemma inv_reachable:
  "collector_inv env (rows_of env input) (run env sched (new_TopStream input))"
  by (rule inv_run) (rule inv_init)

subsection \<open>The snapshot as a function of the consumed rows\<close>

lemma find_append_case:
  "find P (xs @ ys) = (case find P xs of None \<Rightarrow> find P ys | Some x \<Rightarrow> Some x)"
  by (induction xs) simp_all

lemma map_of_store_rows:
  "map_of (store_rows rs m) p = (case last_row p rs of None \<Rightarrow> map_of m p | Some r \<Rightarrow> Some r)"
proof (induction rs arbitrary: m)
  case Nil
  then show ?case by (simp add: store_rows_def last_row_def)
next
  case (Cons r rs)
  have "store_rows (r # rs) m = store_rows rs (AList.update (PID r) r m)"
    by (simp add: store_rows_def)
  then show ?case
    using Cons.IH [of "AList.update (PID r) r m"]
    by (simp add: last_row_def find_append_case update_conv' split: option.splits)
qed

lemma distinct_store_rows:
  "distinct (map fst m) \<Longrightarrow> distinct (map fst (store_rows rs m))"
  by (induction rs arbitrary: m) (simp_all add: store_rows_def distinct_update)

subsection \<open>Consumption only grows, and the gate opens on one path only\<close>

lemma consumed_enqueue: "consumed (enqueue_step env s) = consumed s"
  by (cases "enq s")
    (auto simp: enqueue_step_def enqueue_locked_def Signal_def Let_def
      split: list.splits sum.splits if_splits)

lemma consumed_dequeue: "prefix (consumed s) (consumed (dequeue_step s))"
  by (cases "deq s")
    (auto simp: dequeue_step_def dequeue_row_def dequeue_after_def Let_def
      split: option.splits if_splits)

lemma consumed_start: "consumed (start_step s) = consumed s"
  by (cases "start s") (auto simp: start_step_def)

lemma consumed_step: "prefix (consumed s) (consumed (step env t s))"
  by (cases t) (simp_all add: consumed_enqueue consumed_dequeue consumed_start)

lemma consumed_run: "prefix (consumed s) (consumed (run env sched s))"
proof (induction sched arbitrary: s)
  case Nil
  then show ?case by simp
next
  case (Cons t ts)
  show ?case
    using consumed_step [of s env t] Cons.IH [of "step env t s"]
    by (auto intro: prefix_order.trans)
qed

lemma readyc_enqueue: "readyc (enqueue_step env s) = readyc s"
  by (cases "enq s")
    (auto simp: enqueue_step_def enqueue_locked_def Signal_def Let_def
      split: list.splits sum.splits if_splits)

lemma readyc_start: "readyc (start_step s) = readyc s"
  by (cases "start s") (auto simp: start_step_def)

lemma readyc_dequeue:
  "readyc (dequeue_step s) \<noteq> readyc s \<Longrightarrow>
     deq s = D_loop \<and> queue s \<noteq> [] \<and> \<not> ready s \<and> dequeue_step s = dequeue_row s"
  by (cases "deq s")
    (auto simp: dequeue_step_def dequeue_after_def Let_def dequeue_row_def
      split: option.splits if_splits)

lemma readyc_step:
  "readyc (step env t s) \<noteq> readyc s \<Longrightarrow>
     t = Dequeue \<and> deq s = D_loop \<and> queue s \<noteq> [] \<and> \<not> ready s \<and>
     step env t s = dequeue_row s"
  using readyc_dequeue [of s] by (cases t) (simp_all add: readyc_enqueue readyc_start)

subsection \<open>Once shut for good, the gate stays shut\<close>

lemma gate_shut_enqueue: "gate_shut s \<Longrightarrow> gate_shut (enqueue_step env s)"
  by (cases "enq s")
    (auto simp: gate_shut_def enqueue_step_def enqueue_locked_def reading_def Signal_def
      Let_def split: list.splits sum.splits if_splits)

lemma gate_shut_dequeue: "gate_shut s \<Longrightarrow> gate_shut (dequeue_step s)"
  by (cases "deq s")
    (auto simp: gate_shut_def dequeue_step_def dequeue_after_def reading_def
      Let_def split: option.splits if_splits)

lemma gate_shut_start: "gate_shut s \<Longrightarrow> gate_shut (start_step s)"
  by (cases "start s") (auto simp: gate_shut_def start_step_def)

lemma gate_shut_run: "gate_shut s \<Longrightarrow> gate_shut (run env sched s)"
proof (induction sched arbitrary: s)
  case Nil
  then show ?case by simp
next
  case (Cons t ts)
  have "gate_shut (step env t s)"
    using Cons.prems
    by (cases t) (simp_all add: gate_shut_enqueue gate_shut_dequeue gate_shut_start)
  then show ?case using Cons.IH by simp
qed

subsection \<open>Every well-formed input can be consumed to the end\<close>

lemma enqueue_guard_idle: "idle s \<Longrightarrow> enqueue_step env s = s\<lparr>enq := E_read\<rparr>"
  by (simp add: idle_def enqueue_step_def holds_rmu_def)

lemma enqueue_read_line:
  "enq s = E_read \<Longrightarrow> pt s = (data, lerr) # rest \<Longrightarrow> \<not> topRowToSkip env (TrimSpace data) \<Longrightarrow>
     enqueue_step env s = s\<lparr>pt := rest, enq := E_locked (TrimSpace data) lerr\<rparr>"
  by (simp add: enqueue_step_def)

lemma enqueue_locked_row:
  "enq s = E_locked line None \<Longrightarrow> deq s = D_wait \<Longrightarrow> queue s = [] \<Longrightarrow>
   row_of_line env line = Some r \<Longrightarrow>
     enqueue_step env s = s\<lparr>err := None, queue := [r], deq := D_woken, enq := E_guard\<rparr>"
  by (auto simp: enqueue_step_def enqueue_locked_def holds_rmu_def Signal_def row_of_line_def
      Let_def split: sum.splits if_splits)

lemma dequeue_woken: "deq s = D_woken \<Longrightarrow> dequeue_step s = s\<lparr>deq := D_loop\<rparr>"
  by (simp add: dequeue_step_def)

lemma dequeue_pop: "deq s = D_loop \<Longrightarrow> queue s \<noteq> [] \<Longrightarrow> dequeue_step s = dequeue_row s"
  by (simp add: dequeue_step_def)

lemma dequeue_wait:
  "deq s = D_loop \<Longrightarrow> queue s = [] \<Longrightarrow> err s = None \<Longrightarrow> dequeue_step s = s\<lparr>deq := D_wait\<rparr>"
  by (simp add: dequeue_step_def)

lemma dequeue_row_fields:
  "queue (dequeue_row s) = tl (queue s) \<and> err (dequeue_row s) = err s \<and>
   enq (dequeue_row s) = enq s \<and> deq (dequeue_row s) = deq s \<and> pt (dequeue_row s) = pt s"
  by (simp add: dequeue_row_def Let_def)

lemma round_idle:
  assumes i: "idle s" and p: "pt s = rd # rest" and w: "well_formed env rd"
  shows "idle (run env line_round s) \<and> pt (run env line_round s) = rest"
proof -
  obtain data lerr where rd: "rd = (data, lerr)" by (cases rd)
  from w rd have le: "lerr = None" and ns: "\<not> topRowToSkip env (TrimSpace data)"
    by (auto simp: well_formed_def row_of_read_def split: if_splits)
  from w rd ns obtain r where r: "row_of_line env (TrimSpace data) = Some r"
    by (auto simp: well_formed_def row_of_read_def)
  define s1 where "s1 = enqueue_step env s"
  have e1: "s1 = s\<lparr>enq := E_read\<rparr>"
    unfolding s1_def by (rule enqueue_guard_idle [OF i])
  define s2 where "s2 = enqueue_step env s1"
  have e2: "s2 = s\<lparr>pt := rest, enq := E_locked (TrimSpace data) None\<rparr>"
    unfolding s2_def using enqueue_read_line [of s1 data lerr rest env] ns p rd le
    by (simp add: e1)
  define s3 where "s3 = enqueue_step env s2"
  have e3: "s3 = s\<lparr>pt := rest, err := None, queue := [r], deq := D_woken, enq := E_guard\<rparr>"
    unfolding s3_def using enqueue_locked_row [of s2 "TrimSpace data" env r] i r
    by (simp add: e2 idle_def)
  define s4 where "s4 = dequeue_step s3"
  have e4: "s4 = s3\<lparr>deq := D_loop\<rparr>"
    unfolding s4_def by (rule dequeue_woken) (simp add: e3)
  define s5 where "s5 = dequeue_step s4"
  have e5: "s5 = dequeue_row s4"
    unfolding s5_def by (rule dequeue_pop) (simp_all add: e4 e3)
  have f5: "queue s5 = [] \<and> err s5 = None \<and> enq s5 = E_guard \<and> deq s5 = D_loop \<and> pt s5 = rest"
    by (simp add: e5 dequeue_row_fields e4 e3)
  define s6 where "s6 = dequeue_step s5"
  have e6: "s6 = s5\<lparr>deq := D_wait\<rparr>"
    unfolding s6_def by (rule dequeue_wait) (simp_all add: f5)
  have "run env line_round s = s6"
    unfolding s6_def s5_def s4_def s3_def s2_def s1_def line_round_def by simp
  then show ?thesis using f5 by (simp add: e6 idle_def)
qed

lemma rounds_drain:
  "idle s \<Longrightarrow> list_all (well_formed env) (pt s) \<Longrightarrow>
     idle (run env (concat (map (\<lambda>rd. line_round) (pt s))) s) \<and>
     pt (run env (concat (map (\<lambda>rd. line_round) (pt s))) s) = []"
proof (induction "pt s" arbitrary: s)
  case Nil
  then show ?case by simp
next
  case (Cons rd rest)
  from Cons.hyps(2) have pt: "pt s = rd # rest" by simp
  with Cons.prems have wf: "well_formed env rd" and wfs: "list_all (well_formed env) rest" by simp_all
  let ?s1 = "run env line_round s"
  from round_idle [OF Cons.prems(1) pt wf] have i1: "idle ?s1" and p1: "pt ?s1 = rest" by simp_all
  from Cons.hyps(1) [of ?s1] i1 p1 wfs
  have "idle (run env (concat (map (\<lambda>rd. line_round) rest)) ?s1) \<and>
        pt (run env (concat (map (\<lambda>rd. line_round) rest)) ?s1) = []" by simp
  then show ?case by (simp add: pt run_append)
qed

lemma in_turn_drains:
  assumes "list_all (well_formed env) input"
  shows "drained (run env (in_turn input) (new_TopStream input))"
proof -
  let ?s0 = "run env [Dequeue, Dequeue] (new_TopStream input)"
  have i0: "idle ?s0" and p0: "pt ?s0 = input"
    by (simp_all add: idle_def new_TopStream_def dequeue_step_def)
  from rounds_drain [OF i0] assms p0
  have "idle (run env (concat (map (\<lambda>rd. line_round) input)) ?s0) \<and>
        pt (run env (concat (map (\<lambda>rd. line_round) input)) ?s0) = []" by simp
  then show ?thesis
    by (simp add: in_turn_def run_append drained_def idle_def)
qed

subsection \<open>Rows of well-formed lines, and absent process ids\<close>

lemma rows_of_well_formed:
  "list_all (well_formed env) input \<Longrightarrow>
     rows_of env input = map (\<lambda>rd. the (row_of_read env rd)) input"
  by (induction input) (auto simp: rows_of_def well_formed_def)

lemma last_row_None: "last_row p rs = None \<longleftrightarrow> p \<notin> PID ` set rs"
  by (auto simp: last_row_def find_None_iff)

subsection \<open>Copying a map\<close>

text \<open>
  Go ranges over a map in no fixed order. The copy is the same map in whatever order the
  entries are assigned (\<open>copy_any_order\<close>); \<open>Latest\<close> is stated with the order of the
  association list.
\<close>

lemma update_new_key: "k \<notin> fst ` set al \<Longrightarrow> AList.update k v al = al @ [(k, v)]"
  by (induction al) auto

lemma copy_entries:
  "distinct (map fst (acc @ es)) \<Longrightarrow> fold (\<lambda>(k, v). AList.update k v) es acc = acc @ es"
proof (induction es arbitrary: acc)
  case Nil
  then show ?case by simp
next
  case (Cons e es)
  obtain k v where e: "e = (k, v)" by (cases e)
  from Cons.prems e have "k \<notin> fst ` set acc" by auto
  then have u: "AList.update k v acc = acc @ [(k, v)]" by (rule update_new_key)
  from Cons.prems e have "distinct (map fst ((acc @ [(k, v)]) @ es))" by simp
  from Cons.IH [OF this] show ?case by (simp add: e u)
qed

lemma copy_any_order:
  assumes "distinct (map fst m)" and "distinct (map fst es)" and "set es = set m"
  shows "map_of (fold (\<lambda>(k, v). AList.update k v) es []) = map_of m"
proof -
  have "fold (\<lambda>(k, v). AList.update k v) es [] = es"
    using copy_entries [of "[]" es] assms(2) by simp
  then show ?thesis using assms by (simp add: map_of_inject_set)
qed

lemma fold_map_assign:
  "cm < length (heap s) \<Longrightarrow>
     fold (\<lambda>(k, v). map_assign cm k v) es s =
       s\<lparr>heap := (heap s)[cm := fold (\<lambda>(k, v). AList.update k v) es (heap s ! cm)]\<rparr>"
proof (induction es arbitrary: s)
  case Nil
  then show ?case by simp
next
  case (Cons e es)
  obtain k v where e: "e = (k, v)" by (cases e)
  have "cm < length (heap (map_assign cm k v s))"
    using Cons.prems by (simp add: map_assign_def)
  from Cons.IH [OF this] show ?case
    using Cons.prems by (simp add: e map_assign_def)
qed

lemma Latest_eq:
  assumes "\<not> holds_rmu (deq s)" and "pid2TopCommandRow s < length (heap s)"
    and "distinct (map fst (snapshot s))"
  shows "Latest s = Some (length (heap s), s\<lparr>heap := heap s @ [snapshot s]\<rparr>)"
proof -
  let ?s1 = "s\<lparr>heap := heap s @ [[]]\<rparr>"
  have sn: "snapshot ?s1 = snapshot s"
    using assms(2) by (simp add: snapshot_def nth_append)
  have "fold (\<lambda>(k, v). map_assign (length (heap s)) k v) (snapshot s) ?s1 =
        ?s1\<lparr>heap := (heap ?s1)[length (heap s) :=
           fold (\<lambda>(k, v). AList.update k v) (snapshot s) (heap ?s1 ! length (heap s))]\<rparr>"
    by (rule fold_map_assign) simp
  also have "\<dots> = s\<lparr>heap := heap s @ [snapshot s]\<rparr>"
    using copy_entries [of "[]" "snapshot s"] assms(3) by simp
  finally show ?thesis
    using assms(1) by (simp add: Latest_def make_map_def sn)
qed

subsection \<open>With the error set and nothing queued, dequeue returns\<close>

lemma dequeue_exits:
  assumes inv: "collector_inv env R s" and e: "err s \<noteq> None" and q: "queue s = []"
  shows "deq (run env [Enqueue, Enqueue, Dequeue, Dequeue, Dequeue] s) = D_done"
proof -
  from inv e have nr: "\<not> reading (enq s)" by (auto simp: collector_inv_def)
  from inv have ec: "errc s \<noteq> [] \<longrightarrow> deq s = D_done"
    and dw: "enq s = E_done \<longrightarrow> deq s \<noteq> D_wait"
    by (simp_all add: collector_inv_def)
  define s2 where "s2 = run env [Enqueue, Enqueue] s"
  have f2: "err s2 = err s \<and> queue s2 = [] \<and> errc s2 = errc s \<and>
            (deq s2 = deq s \<and> deq s \<noteq> D_wait \<or> deq s = D_wait \<and> deq s2 = D_woken)"
    using nr e q dw unfolding s2_def
    by (cases "enq s"; cases "deq s")
       (auto simp: enqueue_step_def reading_def holds_rmu_def Signal_def)
  have "deq (run env [Dequeue, Dequeue, Dequeue] s2) = D_done"
    using f2 e ec
    by (cases "deq s2"; cases "deq s")
       (auto simp: dequeue_step_def dequeue_after_def Let_def split: option.splits)
  then show ?thesis by (simp add: s2_def)
qed

subsection \<open>The store in the states of a run\<close>

lemma store_well_formed:
  "pid2TopCommandRow (run env sched (new_TopStream input)) <
     length (heap (run env sched (new_TopStream input))) \<and>
   distinct (map fst (snapshot (run env sched (new_TopStream input))))"
  using inv_reachable [of env input sched] distinct_store_rows [of "[]"]
  by (simp add: collector_inv_def)

subsection \<open>A read error, with no step of dequeue in between\<close>

text \<open>
  What \<open>enqueue\<close> does with a read error when \<open>dequeue\<close> takes no step until \<open>enqueue\<close>
  has returned: the section under the lock leaves the terminal error set (to the read
  error, or to the parse error of that line), the guard then ends the loop, and the last
  step signals and returns; a \<open>dequeue\<close> suspended in \<open>Wait\<close> is woken and, when the queue
  is empty, leaves its loop.
\<close>

lemma read_error_without_interference:
  assumes "enq s = E_read" and "pt s = (data, Some e) # rest"
    and "\<not> topRowToSkip env (TrimSpace data)" and "\<not> holds_rmu (deq s)"
  shows "let s1 = run env [Enqueue, Enqueue] s;
             s2 = step env Enqueue s1;
             s3 = step env Enqueue s2
         in (err s1 = Some e \<or>
              (\<exists>rerr. parseTopRow env (Fields (TrimSpace data)) = Inl rerr \<and>
                      err s1 = Some rerr)) \<and>
            enq s1 = E_guard \<and>
            enq s2 = E_signal \<and> err s2 = err s1 \<and>
            enq s3 = E_done \<and> err s3 = err s1 \<and> wg s3 = wg s - 1 \<and>
            (deq s = D_wait \<longrightarrow>
               deq s3 = D_woken \<and>
               (queue s3 = [] \<longrightarrow> deq (run env [Dequeue, Dequeue] s3) = D_after))"
proof -
  define s0 where "s0 = enqueue_step env s"
  have e0: "s0 = s\<lparr>pt := rest, enq := E_locked (TrimSpace data) (Some e)\<rparr>"
    unfolding s0_def using assms by (simp add: enqueue_step_def)
  define s1 where "s1 = enqueue_step env s0"
  have f1: "(err s1 = Some e \<or>
              (\<exists>rerr. parseTopRow env (Fields (TrimSpace data)) = Inl rerr \<and> err s1 = Some rerr)) \<and>
            enq s1 = E_guard \<and> wg s1 = wg s \<and>
            (deq s1 = deq s \<or> deq s = D_wait \<and> deq s1 = D_woken)"
    unfolding s1_def using assms(4)
    by (auto simp: e0 enqueue_step_def enqueue_locked_def Signal_def Let_def split: sum.splits)
  then have nh: "\<not> holds_rmu (deq s1)" and ne: "err s1 \<noteq> None"
    using assms(4) by (auto simp: holds_rmu_def)
  define s2 where "s2 = enqueue_step env s1"
  have e2: "s2 = s1\<lparr>enq := E_signal\<rparr>"
    unfolding s2_def using f1 nh ne by (auto simp: enqueue_step_def)
  define s3 where "s3 = enqueue_step env s2"
  have e3: "s3 = (Signal s2)\<lparr>enq := E_done, wg := wg s2 - 1\<rparr>"
    unfolding s3_def by (simp add: enqueue_step_def e2)
  have f3: "enq s3 = E_done \<and> err s3 = err s1 \<and> wg s3 = wg s - 1 \<and> queue s3 = queue s1"
    using f1 by (simp add: e3 e2 Signal_def)
  have w3: "deq s3 = D_woken" if "deq s = D_wait"
    using f1 that by (auto simp: e3 e2 Signal_def)
  have out: "deq (run env [Dequeue, Dequeue] s3) = D_after" if "deq s = D_wait" "queue s3 = []"
    using w3 [OF that(1)] that(2) f3 ne by (simp add: dequeue_step_def)
  have r1: "run env [Enqueue, Enqueue] s = s1" by (simp add: s1_def s0_def)
  show ?thesis
    unfolding Let_def r1 step.simps s2_def [symmetric] s3_def [symmetric]
    using f1 f3 w3 out by (simp add: e2)
qed

section \<open>Properties of the query\<close>

lemma ports_match_snoc:
  "ports_match l r (acc @ [x]) =
     (ports_match l r acc \<and> (0 < l \<longrightarrow> LocalPort x = l) \<and> (0 < r \<longrightarrow> RemotePort x = r))"
  by (auto simp: ports_match_def)

lemma getSSEntry_loop_ports:
  "ports_match lport rport acc \<Longrightarrow>
   getSSEntry_loop env pname pid lport rport nss acc = Inr es \<Longrightarrow>
     ports_match lport rport es"
proof (induction nss arbitrary: acc)
  case Nil
  then show ?case by simp
next
  case (Cons elem nss)
  show ?case
  proof (cases "LookupId env (Sprintf_d (Uid elem))")
    case (Inl uerr)
    with Cons.prems show ?thesis by simp
  next
    case (Inr u)
    show ?thesis
    proof (cases "(0 < lport \<and> lport \<noteq> LocalAddressParsedIPPort elem) \<or>
                  (0 < rport \<and> rport \<noteq> RemAddressParsedIPPort elem)")
      case True
      with Cons.prems Inr have "getSSEntry_loop env pname pid lport rport nss acc = Inr es"
        by (simp split: if_splits)
      with Cons.IH Cons.prems(1) show ?thesis by blast
    next
      case False
      let ?entry = "\<lparr>Protocol = Type elem, Program = pname, State = StParsedStatus elem,
                          SS_PID = pid, LocalIP = LocalAddressParsedIPHost elem,
                          LocalPort = LocalAddressParsedIPPort elem,
                          RemoteIP = RemAddressParsedIPHost elem,
                          RemotePort = RemAddressParsedIPPort elem, SS_User = u\<rparr>"
      from False Cons.prems Inr
      have run: "getSSEntry_loop env pname pid lport rport nss (acc @ [?entry]) = Inr es"
        by (simp split: if_splits)
      from False Cons.prems(1) have "ports_match lport rport (acc @ [?entry])"
        by (auto simp: ports_match_snoc)
      from Cons.IH [OF this run] show ?thesis .
    qed
  qed
qed

lemma getSSEntry_ports:
  "getSSEntry env pid tp lport rport = Inr es \<Longrightarrow> ports_match lport rport es"
  using getSSEntry_loop_ports [of lport rport "[]"]
  by (auto simp: getSSEntry_def ports_match_def split: sum.splits)

lemma set_pc_workers:
  "i < length (workers s) \<Longrightarrow> w \<in> set (workers (set_pc i pc s)) \<Longrightarrow>
     w \<in> set (workers s) \<or> w = (workers s ! i)\<lparr>w_pc := pc\<rparr>"
  by (auto simp: set_pc_def dest: set_update_subset_insert [THEN subsetD])

lemma ports_inv_set_pc:
  "ports_inv ft s \<Longrightarrow> i < length (workers s) \<Longrightarrow>
   ports_match (ft_LocalPort ft) (ft_RemotePort ft) (held_entries ((workers s ! i)\<lparr>w_pc := pc\<rparr>)) \<Longrightarrow>
     ports_inv ft (set_pc i pc s)"
  unfolding ports_inv_def
  using set_pc_workers [of i s _ pc] by (auto simp: set_pc_def)

lemma ports_inv_return:
  "ports_inv ft s \<Longrightarrow> i < length (workers s) \<Longrightarrow> ports_inv ft (worker_return i s)"
  using ports_inv_set_pc [of ft s i W_done]
  by (simp add: worker_return_def ports_inv_def held_entries_def ports_match_def set_pc_def)

lemma held_entries_pc [simp]:
  "held_entries (w\<lparr>w_pc := pc\<rparr>) =
     (case pc of W_fetched ents \<Rightarrow> ents | W_append ents \<Rightarrow> ents | _ \<Rightarrow> [])"
  by (simp add: held_entries_def)

lemma ports_match_Nil [simp]: "ports_match l r []"
  by (simp add: ports_match_def)

lemma ports_inv_crashed [simp]: "ports_inv ft (s\<lparr>crashed := b\<rparr>) = ports_inv ft s"
  by (simp add: ports_inv_def)

lemma ports_inv_step: "ports_inv ft s \<Longrightarrow> ports_inv ft (worker_step env ft i s)"
proof (cases "crashed s \<or> length (workers s) \<le> i")
  case True
  assume "ports_inv ft s"
  with True show ?thesis by (auto simp: worker_step_def)
next
  case False
  assume inv: "ports_inv ft s"
  from False have i: "i < length (workers s)" and nc: "\<not> crashed s" by auto
  let ?w = "workers s ! i"
  note ret = ports_inv_return [OF inv i]
  note upd = ports_inv_set_pc [OF inv i]
  from inv i have held: "ports_match (ft_LocalPort ft) (ft_RemotePort ft) (held_entries ?w)"
    by (auto simp: ports_inv_def)
  have fetch: "ports_inv ft
      (case getSSEntry env (w_pid ?w) (w_tp ?w) (ft_LocalPort ft) (ft_RemotePort ft) of
         Inl e \<Rightarrow> worker_return i s | Inr ents \<Rightarrow> set_pc i (pc ents) s)"
    if "\<And>ents. held_entries (?w\<lparr>w_pc := pc ents\<rparr>) = ents" for pc
    using ret upd that getSSEntry_ports [of env "w_pid ?w" "w_tp ?w" "ft_LocalPort ft" "ft_RemotePort ft"]
    by (cases "getSSEntry env (w_pid ?w) (w_tp ?w) (ft_LocalPort ft) (ft_RemotePort ft)") simp_all
  show ?thesis
  proof (cases "w_pc ?w")
    case W_start
    show ?thesis
    proof (cases "ss_mode s")
      case Direct
      with W_start i nc fetch [of W_fetched] show ?thesis
        by (simp add: worker_step_def Let_def)
    next
      case (ByProgram up)
      with W_start i nc ret upd [of W_matched] show ?thesis
        by (simp add: worker_step_def Let_def inv split: sum.splits option.splits)
    qed
  next
    case (W_fetched ents)
    with held have "ports_match (ft_LocalPort ft) (ft_RemotePort ft) ents"
      by (simp add: held_entries_def)
    with W_fetched i nc ret upd [of "W_append ents"] show ?thesis
      by (simp add: worker_step_def Let_def)
  next
    case W_matched
    with i nc ret upd [of W_fetch] show ?thesis
      by (simp add: worker_step_def Let_def)
  next
    case W_fetch
    with i nc fetch [of W_append] show ?thesis
      by (simp add: worker_step_def Let_def)
  next
    case (W_append ents)
    with held have m: "ports_match (ft_LocalPort ft) (ft_RemotePort ft) ents"
      by (simp add: held_entries_def)
    have "ports_inv ft (s\<lparr>sss := sss s @ ents\<rparr>)"
      using inv m by (auto simp: ports_inv_def ports_match_def)
    then have "ports_inv ft (worker_return i (s\<lparr>sss := sss s @ ents\<rparr>))"
      using i by (intro ports_inv_return) simp_all
    with W_append i nc show ?thesis by (simp add: worker_step_def Let_def)
  next
    case W_done
    with inv i nc show ?thesis by (simp add: worker_step_def Let_def)
  qed
qed

lemma ports_inv_run: "ports_inv ft s \<Longrightarrow> ports_inv ft (ss_run env ft sched s)"
  by (induction sched arbitrary: s) (simp_all add: ports_inv_step)

lemma held_spawn: "w \<in> set (spawn ft pids) \<Longrightarrow> w_pc w = W_start"
  by (auto simp: spawn_def split: if_splits)

lemma ports_inv_start: "GetSS_start env ft = Inr s0 \<Longrightarrow> ports_inv ft s0"
  by (auto simp: GetSS_start_def ports_inv_def ports_match_def held_entries_def
      dest!: held_spawn split: sum.splits if_splits)

lemma ports_match_take: "ports_match l r es \<Longrightarrow> ports_match l r (truncate_top ft es)"
  by (auto simp: ports_match_def truncate_top_def dest: in_set_takeD)

lemma spawn_none: "\<not> TCP ft \<Longrightarrow> \<not> TCP6 ft \<Longrightarrow> spawn ft pids = []"
  by (simp add: spawn_def)

lemma no_workers_run: "workers s = [] \<Longrightarrow> ss_run env ft sched s = s"
  by (induction sched arbitrary: s) (simp_all add: worker_step_def)

subsection \<open>Every worker returns, and so does GetSS\<close>

lemma ss_run_append: "ss_run env ft (a @ b) s = ss_run env ft b (ss_run env ft a s)"
  by (induction a arbitrary: s) simp_all

lemma filter_update_count:
  "i < length ws \<Longrightarrow>
     int (length (filter U (ws[i := w]))) =
       int (length (filter U ws)) - (if U (ws ! i) then 1 else 0) + (if U w then 1 else 0)"
proof (induction ws arbitrary: i)
  case Nil
  then show ?case by simp
next
  case (Cons a ws)
  show ?case
  proof (cases i)
    case 0
    then show ?thesis by simp
  next
    case (Suc j)
    with Cons.prems have "j < length ws" by simp
    from Cons.IH [OF this] Suc show ?thesis by (simp split: if_splits)
  qed
qed

lemma unfinished_set_pc:
  "i < length (workers s) \<Longrightarrow>
     int (unfinished (set_pc i pc s)) =
       int (unfinished s) - (if w_pc (workers s ! i) \<noteq> W_done then 1 else 0)
         + (if pc \<noteq> W_done then 1 else 0)"
  unfolding unfinished_def set_pc_def
  using filter_update_count [of i "workers s" "\<lambda>w. w_pc w \<noteq> W_done" "(workers s ! i)\<lparr>w_pc := pc\<rparr>"]
  by simp

lemma worker_step_cases:
  assumes "\<not> crashed s" and "i < length (workers s)" and "w_pc (workers s ! i) \<noteq> W_done"
  shows "(\<exists>pc. pc \<noteq> W_done \<and> pc_rank pc < pc_rank (w_pc (workers s ! i)) \<and>
              worker_step env ft i s = set_pc i pc s) \<or>
         (\<exists>s'. worker_step env ft i s = worker_return i s' \<and> workers s' = workers s \<and>
              ss_wg s' = ss_wg s \<and> crashed s' = crashed s \<and> ss_mode s' = ss_mode s) \<or>
         (worker_step env ft i s = s\<lparr>crashed := True\<rparr> \<and> ss_mode s \<noteq> Direct \<and>
            ProgramMatchFunc ft = None)"
proof (cases "w_pc (workers s ! i)")
  case W_start
  show ?thesis
  proof (cases "ss_mode s")
    case Direct
    show ?thesis
    proof (cases "getSSEntry env (w_pid (workers s ! i)) (w_tp (workers s ! i)) (ft_LocalPort ft) (ft_RemotePort ft)")
      case (Inl e)
      with assms W_start Direct have "worker_step env ft i s = worker_return i s"
        by (simp add: worker_step_def Let_def)
      then show ?thesis by blast
    next
      case (Inr ents)
      with assms W_start Direct have "worker_step env ft i s = set_pc i (W_fetched ents) s"
        by (simp add: worker_step_def Let_def)
      then show ?thesis using W_start by (auto simp: pc_rank_def)
    qed
  next
    case (ByProgram up)
    show ?thesis
    proof (cases "GetStat env (w_pid (workers s ! i)) up")
      case (Inl e)
      with assms W_start ByProgram have "worker_step env ft i s = worker_return i s"
        by (simp add: worker_step_def Let_def)
      then show ?thesis by blast
    next
      case (Inr stat)
      show ?thesis
      proof (cases "ProgramMatchFunc ft")
        case None
        with assms W_start ByProgram Inr have "worker_step env ft i s = s\<lparr>crashed := True\<rparr>"
          by (simp add: worker_step_def Let_def)
        then show ?thesis using None ByProgram by simp
      next
        case (Some f)
        show ?thesis
        proof (cases "f (Comm stat)")
          case True
          with assms W_start ByProgram Inr Some
          have "worker_step env ft i s = set_pc i W_matched s"
            by (simp add: worker_step_def Let_def)
          then show ?thesis using W_start by (auto simp: pc_rank_def)
        next
          case False
          with assms W_start ByProgram Inr Some
          have "worker_step env ft i s = worker_return i s"
            by (simp add: worker_step_def Let_def)
          then show ?thesis by blast
        qed
      qed
    qed
  qed
next
  case (W_fetched ents)
  show ?thesis
  proof (cases "cap_reached ft s")
    case True
    with assms W_fetched have "worker_step env ft i s = worker_return i s"
      by (simp add: worker_step_def Let_def)
    then show ?thesis by blast
  next
    case False
    with assms W_fetched have "worker_step env ft i s = set_pc i (W_append ents) s"
      by (simp add: worker_step_def Let_def)
    then show ?thesis using W_fetched by (auto simp: pc_rank_def)
  qed
next
  case W_matched
  show ?thesis
  proof (cases "cap_reached ft s")
    case True
    with assms W_matched have "worker_step env ft i s = worker_return i s"
      by (simp add: worker_step_def Let_def)
    then show ?thesis by blast
  next
    case False
    with assms W_matched have "worker_step env ft i s = set_pc i W_fetch s"
      by (simp add: worker_step_def Let_def)
    then show ?thesis using W_matched by (auto simp: pc_rank_def)
  qed
next
  case W_fetch
  show ?thesis
  proof (cases "getSSEntry env (w_pid (workers s ! i)) (w_tp (workers s ! i)) (ft_LocalPort ft) (ft_RemotePort ft)")
    case (Inl e)
    with assms W_fetch have "worker_step env ft i s = worker_return i s"
      by (simp add: worker_step_def Let_def)
    then show ?thesis by blast
  next
    case (Inr ents)
    with assms W_fetch have "worker_step env ft i s = set_pc i (W_append ents) s"
      by (simp add: worker_step_def Let_def)
    then show ?thesis using W_fetch by (auto simp: pc_rank_def)
  qed
next
  case (W_append ents)
  with assms have "worker_step env ft i s = worker_return i (s\<lparr>sss := sss s @ ents\<rparr>)"
    by (simp add: worker_step_def Let_def)
  then show ?thesis by auto
next
  case W_done
  with assms show ?thesis by simp
qed

lemma worker_step_idle:
  "crashed s \<or> length (workers s) \<le> i \<or> w_pc (workers s ! i) = W_done \<Longrightarrow>
     worker_step env ft i s = s"
  by (auto simp: worker_step_def Let_def)

lemma unfinished_fields [simp]:
  "unfinished (s\<lparr>ss_wg := x\<rparr>) = unfinished s"
  "unfinished (s\<lparr>crashed := b\<rparr>) = unfinished s"
  "unfinished (s\<lparr>sss := es\<rparr>) = unfinished s"
  by (simp_all add: unfinished_def)

lemma set_pc_fields [simp]:
  "ss_wg (set_pc i pc s) = ss_wg s" "crashed (set_pc i pc s) = crashed s"
  "ss_mode (set_pc i pc s) = ss_mode s" "sss (set_pc i pc s) = sss s"
  "length (workers (set_pc i pc s)) = length (workers s)"
  by (simp_all add: set_pc_def)

lemma worker_return_fields [simp]:
  "ss_wg (worker_return i s) = ss_wg s - 1" "crashed (worker_return i s) = crashed s"
  "ss_mode (worker_return i s) = ss_mode s"
  "workers (worker_return i s) = workers (set_pc i W_done s)"
  by (simp_all add: worker_return_def)

lemma unfinished_return:
  "i < length (workers s) \<Longrightarrow> w_pc (workers s ! i) \<noteq> W_done \<Longrightarrow>
     int (unfinished (worker_return i s)) = int (unfinished s) - 1"
  using unfinished_set_pc [of i s W_done] by (simp add: worker_return_def)

lemma unfinished_cong: "workers s' = workers s \<Longrightarrow> unfinished s' = unfinished s"
  by (simp add: unfinished_def)

lemma balance_step:
  "ss_wg (worker_step env ft i s) - int (unfinished (worker_step env ft i s)) =
     ss_wg s - int (unfinished s)"
proof (cases "crashed s \<or> length (workers s) \<le> i \<or> w_pc (workers s ! i) = W_done")
  case True
  then show ?thesis by (simp add: worker_step_idle)
next
  case False
  then have a: "\<not> crashed s" "i < length (workers s)" "w_pc (workers s ! i) \<noteq> W_done"
    by auto
  from worker_step_cases [OF a, of env ft] show ?thesis
  proof (elim disjE exE conjE)
    fix pc assume "pc \<noteq> W_done" "worker_step env ft i s = set_pc i pc s"
    then show ?thesis using unfinished_set_pc [of i s pc] a by simp
  next
    fix s' assume r: "worker_step env ft i s = worker_return i s'" "workers s' = workers s"
      "ss_wg s' = ss_wg s"
    then have "int (unfinished (worker_return i s')) = int (unfinished s') - 1"
      using a by (intro unfinished_return) simp_all
    then show ?thesis using r unfinished_cong [OF r(2)] by simp
  next
    assume "worker_step env ft i s = s\<lparr>crashed := True\<rparr>"
    then show ?thesis by simp
  qed
qed

lemma balance_run:
  "ss_wg (ss_run env ft sched s) - int (unfinished (ss_run env ft sched s)) =
     ss_wg s - int (unfinished s)"
  by (induction sched arbitrary: s) (simp_all add: balance_step)

lemma step_frame:
  "length (workers (worker_step env ft i s)) = length (workers s) \<and>
   ss_mode (worker_step env ft i s) = ss_mode s \<and>
   (\<forall>j. j \<noteq> i \<longrightarrow> workers (worker_step env ft i s) ! j = workers s ! j)"
proof (cases "crashed s \<or> length (workers s) \<le> i \<or> w_pc (workers s ! i) = W_done")
  case True
  then show ?thesis by (simp add: worker_step_idle)
next
  case False
  then have a: "\<not> crashed s" "i < length (workers s)" "w_pc (workers s ! i) \<noteq> W_done"
    by auto
  from worker_step_cases [OF a, of env ft] show ?thesis
    by (elim disjE exE conjE) (auto simp: set_pc_def)
qed

lemma crashed_step: "crashed s \<Longrightarrow> crashed (worker_step env ft i s)"
  by (simp add: worker_step_idle)

lemma crashed_run: "crashed s \<Longrightarrow> crashed (ss_run env ft sched s)"
  by (induction sched arbitrary: s) (simp_all add: crashed_step)

lemma rank_step:
  assumes "\<not> crashed (worker_step env ft i s)" and "i < length (workers s)"
  shows "pc_rank (w_pc (workers (worker_step env ft i s) ! i)) \<le>
           pc_rank (w_pc (workers s ! i)) - 1"
proof (cases "w_pc (workers s ! i) = W_done")
  case True
  then show ?thesis by (simp add: worker_step_idle pc_rank_def)
next
  case False
  from assms(1) have nc: "\<not> crashed s" using crashed_step by blast
  from worker_step_cases [OF nc assms(2) False, of env ft] show ?thesis
  proof (elim disjE exE conjE)
    fix pc assume "pc_rank pc < pc_rank (w_pc (workers s ! i))"
      "worker_step env ft i s = set_pc i pc s"
    then show ?thesis using assms(2) by (simp add: set_pc_def)
  next
    fix s' assume "worker_step env ft i s = worker_return i s'" "workers s' = workers s"
    then show ?thesis using assms(2) by (simp add: set_pc_def pc_rank_def)
  next
    assume "worker_step env ft i s = s\<lparr>crashed := True\<rparr>"
    with assms(1) show ?thesis by simp
  qed
qed

lemma rank_le_4: "pc_rank pc \<le> 4"
  by (cases pc) (simp_all add: pc_rank_def)

lemma rank_0: "pc_rank pc = 0 \<longleftrightarrow> pc = W_done"
  by (cases pc) (simp_all add: pc_rank_def)

lemma four_steps:
  assumes "i < length (workers s)" and "\<not> crashed (ss_run env ft [i, i, i, i] s)"
  shows "w_pc (workers (ss_run env ft [i, i, i, i] s) ! i) = W_done"
proof -
  define s1 where "s1 = worker_step env ft i s"
  define s2 where "s2 = worker_step env ft i s1"
  define s3 where "s3 = worker_step env ft i s2"
  define s4 where "s4 = worker_step env ft i s3"
  have r: "ss_run env ft [i, i, i, i] s = s4"
    by (simp add: s4_def s3_def s2_def s1_def)
  with assms(2) have c4: "\<not> crashed s4" by simp
  then have c3: "\<not> crashed s3" unfolding s4_def using crashed_step by blast
  then have c2: "\<not> crashed s2" unfolding s3_def using crashed_step by blast
  then have c1: "\<not> crashed s1" unfolding s2_def using crashed_step by blast
  have l1: "i < length (workers s1)" unfolding s1_def using assms(1) step_frame by simp
  then have l2: "i < length (workers s2)" unfolding s2_def using step_frame by simp
  then have l3: "i < length (workers s3)" unfolding s3_def using step_frame by simp
  have "pc_rank (w_pc (workers s1 ! i)) \<le> pc_rank (w_pc (workers s ! i)) - 1"
    unfolding s1_def using c1 assms(1) by (intro rank_step) (simp_all add: s1_def)
  moreover have "pc_rank (w_pc (workers s2 ! i)) \<le> pc_rank (w_pc (workers s1 ! i)) - 1"
    unfolding s2_def using c2 l1 by (intro rank_step) (simp_all add: s2_def)
  moreover have "pc_rank (w_pc (workers s3 ! i)) \<le> pc_rank (w_pc (workers s2 ! i)) - 1"
    unfolding s3_def using c3 l2 by (intro rank_step) (simp_all add: s3_def)
  moreover have "pc_rank (w_pc (workers s4 ! i)) \<le> pc_rank (w_pc (workers s3 ! i)) - 1"
    unfolding s4_def using c4 l3 by (intro rank_step) (simp_all add: s4_def)
  ultimately have "pc_rank (w_pc (workers s4 ! i)) = 0"
    using rank_le_4 [of "w_pc (workers s ! i)"] by linarith
  then have "w_pc (workers s4 ! i) = W_done" by (simp add: rank_0)
  then show ?thesis by (simp only: r)
qed

lemma done_stays_step:
  "w_pc (workers s ! j) = W_done \<Longrightarrow> w_pc (workers (worker_step env ft i s) ! j) = W_done"
  using step_frame [of env ft i s] by (cases "j = i") (simp_all add: worker_step_idle)

lemma done_stays_run:
  "w_pc (workers s ! j) = W_done \<Longrightarrow> w_pc (workers (ss_run env ft sched s) ! j) = W_done"
  by (induction sched arbitrary: s) (simp_all add: done_stays_step)

lemma length_workers_run: "length (workers (ss_run env ft sched s)) = length (workers s)"
  by (induction sched arbitrary: s) (simp_all add: step_frame)

lemma to_completion_Suc: "to_completion (Suc n) = to_completion n @ [n, n, n, n]"
  by (simp add: to_completion_def)

lemma all_done:
  "n \<le> length (workers s) \<Longrightarrow> \<not> crashed (ss_run env ft (to_completion n) s) \<Longrightarrow>
     \<forall>j < n. w_pc (workers (ss_run env ft (to_completion n) s) ! j) = W_done"
proof (induction n)
  case 0
  then show ?case by simp
next
  case (Suc n)
  let ?s = "ss_run env ft (to_completion n) s"
  have run: "ss_run env ft (to_completion (Suc n)) s = ss_run env ft [n, n, n, n] ?s"
    by (simp only: to_completion_Suc ss_run_append)
  have nc': "\<not> crashed (ss_run env ft [n, n, n, n] ?s)" by (metis Suc.prems(2) run)
  then have nc: "\<not> crashed ?s" using crashed_run by blast
  from Suc.IH nc Suc.prems(1) have old: "\<forall>j < n. w_pc (workers ?s ! j) = W_done" by simp
  have len: "n < length (workers ?s)" using Suc.prems(1) by (simp add: length_workers_run)
  have new: "w_pc (workers (ss_run env ft [n, n, n, n] ?s) ! n) = W_done"
    by (rule four_steps [OF len nc'])
  show ?case
  proof (intro allI impI)
    fix j assume "j < Suc n"
    then consider "j < n" | "j = n" by linarith
    then show "w_pc (workers (ss_run env ft (to_completion (Suc n)) s) ! j) = W_done"
    proof cases
      case 1
      with old have "w_pc (workers ?s ! j) = W_done" by simp
      then show ?thesis unfolding run by (rule done_stays_run)
    next
      case 2
      with new show ?thesis by (simp only: run)
    qed
  qed
qed

lemma unfinished_0:
  "\<forall>j < length (workers s). w_pc (workers s ! j) = W_done \<Longrightarrow> unfinished s = 0"
  by (auto simp: unfinished_def filter_empty_conv in_set_conv_nth)

lemma can_match_step:
  "can_match ft s \<Longrightarrow>
     can_match ft (worker_step env ft i s) \<and> crashed (worker_step env ft i s) = crashed s"
proof (cases "crashed s \<or> length (workers s) \<le> i \<or> w_pc (workers s ! i) = W_done")
  case True
  assume "can_match ft s"
  with True show ?thesis by (simp add: worker_step_idle)
next
  case False
  assume cm: "can_match ft s"
  from False have a: "\<not> crashed s" "i < length (workers s)" "w_pc (workers s ! i) \<noteq> W_done"
    by auto
  from worker_step_cases [OF a, of env ft] show ?thesis
  proof (elim disjE exE conjE)
    fix pc assume "worker_step env ft i s = set_pc i pc s"
    then show ?thesis using cm a by (auto simp: can_match_def)
  next
    fix s' assume "worker_step env ft i s = worker_return i s'" "workers s' = workers s"
      "crashed s' = crashed s" "ss_mode s' = ss_mode s"
    then show ?thesis using cm a by (auto simp: can_match_def)
  next
    assume "ss_mode s \<noteq> Direct" "ProgramMatchFunc ft = None"
    with cm a show ?thesis by (auto simp: can_match_def)
  qed
qed

lemma can_match_run:
  "can_match ft s \<Longrightarrow> crashed (ss_run env ft sched s) = crashed s"
proof (induction sched arbitrary: s)
  case Nil
  then show ?case by simp
next
  case (Cons i sched)
  from can_match_step [OF Cons.prems, of env i] Cons.IH [of "worker_step env ft i s"]
  show ?case by simp
qed

lemma length_spawn:
  "int (length (spawn ft pids)) =
     (if TCP ft then int (length pids) else 0) + (if TCP6 ft then int (length pids) else 0)"
  by (induction pids) (simp_all add: spawn_def)

lemma unfinished_spawn:
  "workers s = spawn ft pids \<Longrightarrow> unfinished s = length (spawn ft pids)"
proof -
  have "filter (\<lambda>w. w_pc w \<noteq> W_done) (spawn ft pids) = spawn ft pids"
    by (auto simp: filter_id_conv dest: held_spawn)
  then show "workers s = spawn ft pids \<Longrightarrow> unfinished s = length (spawn ft pids)"
    by (simp add: unfinished_def)
qed

lemma spawn_Nil: "spawn ft [] = []"
  by (simp add: spawn_def)

lemma wg_added_spawn:
  assumes "TCP ft \<or> TCP6 ft" and "workers s = spawn ft pids"
  shows "wg_added ft pids = int (unfinished s)"
  using assms(1) length_spawn [of ft pids] unfinished_spawn [OF assms(2)]
  by (auto simp: wg_added_def)

lemma GetSS_start_props:
  assumes st: "GetSS_start env ft = Inr s0" and fam: "TCP ft \<or> TCP6 ft"
  shows "can_match ft s0 \<and> \<not> crashed s0 \<and> ss_wg s0 = int (unfinished s0)"
proof -
  from st obtain pids where c: "candidates env ft = Inr pids"
    by (cases "candidates env ft") (simp_all add: GetSS_start_def)
  show ?thesis
  proof (cases "pids = []")
    case False
    with st c have s0: "s0 = \<lparr>sss = [], ss_wg = wg_added ft pids, workers = spawn ft pids,
                    crashed = False, ss_mode = Direct\<rparr>"
      by (simp add: GetSS_start_def)
    have "wg_added ft pids = int (unfinished s0)"
      by (rule wg_added_spawn [OF fam]) (simp add: s0)
    then show ?thesis by (simp add: s0 can_match_def)
  next
    case True
    with st c obtain pids' up where l: "ListPIDs env = Inr pids'"
      and s0: "s0 = \<lparr>sss = [], ss_wg = wg_added ft pids', workers = spawn ft pids',
                           crashed = False, ss_mode = ByProgram up\<rparr>"
      by (auto simp: GetSS_start_def split: sum.splits)
    have w: "wg_added ft pids' = int (unfinished s0)"
      by (rule wg_added_spawn [OF fam]) (simp add: s0)
    have "ProgramMatchFunc ft \<noteq> None \<or> pids' = []"
      using c True l by (auto simp: candidates_def split: if_splits)
    then have "can_match ft s0" by (auto simp: can_match_def s0 spawn_Nil)
    with w show ?thesis by (simp add: s0)
  qed
qed

lemma GetSS_returns:
  assumes "TCP ft \<or> TCP6 ft"
  shows "\<exists>r. GetSS env ft (to_completion (worker_count env ft)) = Some r"
proof (cases "GetSS_start env ft")
  case (Inl e)
  then show ?thesis by (simp add: GetSS_def)
next
  case (Inr s0)
  let ?n = "length (workers s0)"
  let ?s = "ss_run env ft (to_completion ?n) s0"
  from GetSS_start_props [OF Inr assms]
  have cm: "can_match ft s0" and nc0: "\<not> crashed s0" and wg0: "ss_wg s0 = int (unfinished s0)"
    by simp_all
  have nc: "\<not> crashed ?s" using can_match_run [OF cm] nc0 by simp
  have "\<forall>j < ?n. w_pc (workers ?s ! j) = W_done"
    by (rule all_done [OF _ nc]) simp
  then have "unfinished ?s = 0"
    by (intro unfinished_0) (simp add: length_workers_run)
  with balance_run [of env ft "to_completion ?n" s0] wg0 have "ss_wg ?s = 0" by simp
  with nc Inr show ?thesis by (simp add: GetSS_def worker_count_def)
qed

section \<open>The claims about the collector\<close>

text \<open>
  Claim C1. For every input of well-formed lines and every schedule of the three routines:
  the rows consumed and queued so far are, in this order, an initial part of the rows of
  the input (rows leave the queue in the order in which they entered it, which is the
  order of the input); the snapshot holds for every process id the last consumed row
  with that id; once nothing is left to read or to consume, the snapshot holds for every
  process id its last row in the input, and no entry for an id that does not occur.
  Every well-formed line yields a row, and the schedule \<open>in_turn\<close> consumes the input to
  the end.
\<close>

theorem fifo_and_last_write_wins:
  assumes wf: "list_all (well_formed env) input"
  shows "(let s = run env sched (new_TopStream input) in
            prefix (consumed s @ queue s) (rows_of env input) \<and>
            (\<forall>p. map_of (snapshot s) p = last_row p (consumed s)) \<and>
            (drained s \<longrightarrow>
               consumed s = rows_of env input \<and>
               (\<forall>p. map_of (snapshot s) p = last_row p (rows_of env input)) \<and>
               (\<forall>p. p \<notin> PID ` set (rows_of env input) \<longrightarrow> map_of (snapshot s) p = None))) \<and>
         rows_of env input = map (\<lambda>rd. the (row_of_read env rd)) input \<and>
         drained (run env (in_turn input) (new_TopStream input))"
proof -
  define s where "s = run env sched (new_TopStream input)"
  have inv: "collector_inv env (rows_of env input) s"
    unfolding s_def by (rule inv_reachable)
  then have parts: "consumed s @ queue s @ pending env s = rows_of env input"
    and snap: "snapshot s = store_rows (consumed s) []"
    by (simp_all add: collector_inv_def)
  have fifo: "prefix (consumed s @ queue s) (rows_of env input)"
    using parts by (metis append.assoc prefixI)
  have lww: "map_of (snapshot s) p = last_row p (consumed s)" for p
    by (simp add: snap map_of_store_rows split: option.splits)
  have fin: "consumed s = rows_of env input" if "drained s"
    using that parts
    by (cases "enq s") (auto simp: drained_def pending_def rows_of_def)
  have absent: "map_of (snapshot s) p = None"
    if "drained s" "p \<notin> PID ` set (rows_of env input)" for p
    using that fin lww [of p] last_row_None [of p "consumed s"] by simp
  show ?thesis
    using fifo lww fin absent rows_of_well_formed [OF wf] in_turn_drains [OF wf]
    unfolding s_def [symmetric] Let_def by simp
qed

theorem fifo_and_last_write_wins_witness:
  "list_all (well_formed demo_env) demo_lines \<and>
   drained (run demo_env (in_turn demo_lines) (new_TopStream demo_lines)) \<and>
   snapshot (run demo_env (in_turn demo_lines) (new_TopStream demo_lines)) =
     [(1, \<lparr>PID = 1, columns = [''9.0'', ''4.0'']\<rparr>), (2, \<lparr>PID = 2, columns = [''5.0'', ''3.0'']\<rparr>)] \<and>
   consumed (run demo_env (in_turn demo_lines) (new_TopStream demo_lines)) =
     rows_of demo_env demo_lines \<and>
   map_of (snapshot (run demo_env (in_turn demo_lines) (new_TopStream demo_lines))) 1 =
     last_row 1 (rows_of demo_env demo_lines) \<and>
   map_of (snapshot (run demo_env (in_turn demo_lines) (new_TopStream demo_lines))) 3 = None"
proof -
  have wf: "list_all (well_formed demo_env) demo_lines" by code_simp
  have snap: "snapshot (run demo_env (in_turn demo_lines) (new_TopStream demo_lines)) =
     [(1, \<lparr>PID = 1, columns = [''9.0'', ''4.0'']\<rparr>), (2, \<lparr>PID = 2, columns = [''5.0'', ''3.0'']\<rparr>)]"
    by code_simp
  have no3: "(3::int) \<notin> PID ` set (rows_of demo_env demo_lines)" by code_simp
  show ?thesis
    using fifo_and_last_write_wins [OF wf, of "in_turn demo_lines"] wf snap no3
    unfolding Let_def by blast
qed

text \<open>
  Claim C2. In every state of every run, \<open>close(str.readyc)\<close> has been executed once if
  a row has been consumed and not at all otherwise, and \<open>ready\<close> is set exactly in the
  first case. The step that executes it is the step of \<open>dequeue\<close> that consumes the first
  row of the input and stores it into the snapshot. Once \<open>ready\<close> is set it stays set,
  and the number of executions stays one, whatever runs afterwards.
\<close>

theorem readiness_fires_once:
  "let s = run env sched (new_TopStream input) in
     readyc s = (if consumed s = [] then 0 else 1) \<and>
     ready s = (consumed s \<noteq> []) \<and>
     (consumed s \<noteq> [] \<longrightarrow> rows_of env input \<noteq> [] \<and> hd (consumed s) = hd (rows_of env input)) \<and>
     (\<forall>t. readyc (step env t s) \<noteq> readyc s \<longrightarrow>
        t = Dequeue \<and> consumed s = [] \<and> readyc s = 0 \<and> readyc (step env t s) = 1 \<and>
        consumed (step env t s) = [hd (rows_of env input)] \<and>
        map_of (snapshot (step env t s)) (PID (hd (rows_of env input))) = Some (hd (rows_of env input))) \<and>
     (\<forall>more. ready s \<longrightarrow> ready (run env more s) \<and> readyc (run env more s) = 1)"
proof -
  define s where "s = run env sched (new_TopStream input)"
  define R where "R = rows_of env input"
  have inv: "collector_inv env R s"
    unfolding s_def R_def by (rule inv_reachable)
  then have parts: "consumed s @ queue s @ pending env s = R"
    and rc: "readyc s = (if consumed s = [] then 0 else 1)"
    and rd: "ready s = (consumed s \<noteq> [])"
    by (simp_all add: collector_inv_def)
  have first: "R \<noteq> [] \<and> hd (consumed s) = hd R" if "consumed s \<noteq> []"
    using that parts by (cases "consumed s") auto
  have fire: "t = Dequeue \<and> consumed s = [] \<and> readyc s = 0 \<and> readyc (step env t s) = 1 \<and>
        consumed (step env t s) = [hd R] \<and>
        map_of (snapshot (step env t s)) (PID (hd R)) = Some (hd R)"
    if ch: "readyc (step env t s) \<noteq> readyc s" for t
  proof -
    from readyc_step [OF ch] have t: "t = Dequeue" and q: "queue s \<noteq> []" and nr: "\<not> ready s"
      and st: "step env t s = dequeue_row s" by blast+
    from nr rd have c0: "consumed s = []" by simp
    with parts q have hq: "hd (queue s) = hd R" by (cases "queue s") auto
    have c1: "consumed (step env t s) = [hd R]"
      by (simp add: st dequeue_row_def Let_def c0 hq)
    have inv': "collector_inv env R (step env t s)" by (rule inv_step [OF inv])
    then have "snapshot (step env t s) = store_rows [hd R] []"
      and "readyc (step env t s) = 1"
      by (simp_all add: collector_inv_def c1)
    then show ?thesis using t c0 rc c1 by (simp add: store_rows_def)
  qed
  have stay: "ready (run env more s) \<and> readyc (run env more s) = 1" if "ready s" for more
  proof -
    have "collector_inv env R (run env more s)" by (rule inv_run [OF inv])
    moreover have "consumed (run env more s) \<noteq> []"
      using consumed_run [of s env more] that rd by auto
    ultimately show ?thesis by (simp add: collector_inv_def)
  qed
  show ?thesis
    using rc rd first fire stay unfolding s_def [symmetric] R_def [symmetric] Let_def by blast
qed

theorem readiness_fires_once_witness:
  "ready (run demo_env (in_turn demo_lines) (new_TopStream demo_lines)) \<and>
   readyc (run demo_env (in_turn demo_lines) (new_TopStream demo_lines)) = 1 \<and>
   hd (consumed (run demo_env (in_turn demo_lines) (new_TopStream demo_lines))) =
     hd (rows_of demo_env demo_lines) \<and>
   readyc (run demo_env [Dequeue, Start, Enqueue]
     (run demo_env (in_turn demo_lines) (new_TopStream demo_lines))) = 1"
proof -
  have c: "consumed (run demo_env (in_turn demo_lines) (new_TopStream demo_lines)) \<noteq> []"
    by code_simp
  show ?thesis
    using readiness_fires_once [of demo_env "in_turn demo_lines" demo_lines] c
    unfolding Let_def by (auto simp del: run.simps split: if_splits)
qed

text \<open>
  Claim C3. Every read error sets the terminal error and ends the loop of \<open>enqueue\<close>,
  which then signals the condition variable once more. The code sets the error and
  checks it in the guard \<open>noError()\<close>, but the guard is a section under the lock of its
  own, and \<open>dequeue\<close> on its way out resets an expected error to \<open>nil\<close>. Here
  \<open>ReadLine\<close> fails twice with the error of the closed pseudo-terminal. After the first
  failure the error is set and \<open>enqueue\<close> is back at its guard; \<open>dequeue\<close> then takes
  the lock, finds the queue empty and the error set, leaves its loop, resets the error
  and returns, sending nothing on the error channel; the guard of \<open>enqueue\<close> now finds no
  error, and \<open>enqueue\<close> reads again instead of leaving the loop. It leaves the loop on
  the second failure only, and that error is never sent on the error channel.
\<close>

theorem read_error_missed_by_guard:
  "err (run demo_env [Enqueue, Enqueue, Enqueue] (new_TopStream pty_error_twice)) =
     Some ''read /dev/ptmx: input/output error'' \<and>
   enq (run demo_env [Enqueue, Enqueue, Enqueue] (new_TopStream pty_error_twice)) = E_guard \<and>
   err (run demo_env [Enqueue, Enqueue, Enqueue, Dequeue, Dequeue, Dequeue]
     (new_TopStream pty_error_twice)) = None \<and>
   deq (run demo_env [Enqueue, Enqueue, Enqueue, Dequeue, Dequeue, Dequeue]
     (new_TopStream pty_error_twice)) = D_done \<and>
   errc (run demo_env [Enqueue, Enqueue, Enqueue, Dequeue, Dequeue, Dequeue]
     (new_TopStream pty_error_twice)) = [] \<and>
   enq (run demo_env [Enqueue, Enqueue, Enqueue, Dequeue, Dequeue, Dequeue, Enqueue]
     (new_TopStream pty_error_twice)) = E_read \<and>
   pt (run demo_env [Enqueue, Enqueue, Enqueue, Dequeue, Dequeue, Dequeue, Enqueue, Enqueue]
     (new_TopStream pty_error_twice)) = [] \<and>
   enq (run demo_env [Enqueue, Enqueue, Enqueue, Dequeue, Dequeue, Dequeue, Enqueue, Enqueue,
     Enqueue, Enqueue, Enqueue] (new_TopStream pty_error_twice)) = E_done \<and>
   err (run demo_env [Enqueue, Enqueue, Enqueue, Dequeue, Dequeue, Dequeue, Enqueue, Enqueue,
     Enqueue, Enqueue, Enqueue] (new_TopStream pty_error_twice)) =
     Some ''read /dev/ptmx: input/output error'' \<and>
   errc (run demo_env [Enqueue, Enqueue, Enqueue, Dequeue, Dequeue, Dequeue, Enqueue, Enqueue,
     Enqueue, Enqueue, Enqueue] (new_TopStream pty_error_twice)) = []"
  by code_simp

text \<open>
  Claim C4. When \<open>str.cmd.Wait()\<close> returns an error and \<open>enqueue\<close> has returned, \<open>Wait\<close>
  returns \<open>nil\<close> if the message contains "exit status" and the error itself otherwise;
  \<open>Stop\<close> returns \<open>nil\<close> if the message contains "signal:" or one of the two messages
  of the closed pseudo-terminal, and the error itself otherwise.
\<close>

theorem shutdown_squashes_errors:
  assumes "cmd s" and "wg s = 0"
  shows "Wait (Some es) s =
           Some (if Contains es ''exit status'' then None else Some es, s\<lparr>cmd := False\<rparr>) \<and>
         Stop (Some es) s =
           Some (if Contains es ''signal:'' \<or> Contains es ''/dev/ptmx: input/output error'' \<or>
                    Contains es ''/dev/ptmx: file already closed''
                 then None else Some es, s\<lparr>cmd := False\<rparr>)"
  using assms by (simp add: Wait_def Stop_def close_def expectedErr_def)

theorem shutdown_squashes_errors_witness:
  "cmd joined_state \<and> wg joined_state = 0 \<and>
   Wait (Some ''exit status 1'') joined_state = Some (None, joined_state\<lparr>cmd := False\<rparr>) \<and>
   Wait (Some ''signal: killed'') joined_state =
     Some (Some ''signal: killed'', joined_state\<lparr>cmd := False\<rparr>) \<and>
   Stop (Some ''signal: killed'') joined_state = Some (None, joined_state\<lparr>cmd := False\<rparr>) \<and>
   Stop (Some ''exit status 1'') joined_state =
     Some (Some ''exit status 1'', joined_state\<lparr>cmd := False\<rparr>)"
proof -
  have h1: "cmd joined_state" and h2: "wg joined_state = 0" by code_simp+
  have c: "Contains ''exit status 1'' ''exit status'' \<and>
           \<not> Contains ''signal: killed'' ''exit status'' \<and>
           Contains ''signal: killed'' ''signal:'' \<and>
           \<not> Contains ''exit status 1'' ''signal:'' \<and>
           \<not> Contains ''exit status 1'' ''/dev/ptmx: input/output error'' \<and>
           \<not> Contains ''exit status 1'' ''/dev/ptmx: file already closed''"
    by code_simp
  show ?thesis
    using shutdown_squashes_errors [OF h1 h2, of "''exit status 1''"]
      shutdown_squashes_errors [OF h1 h2, of "''signal: killed''"] h1 h2 c
    by simp
qed

text \<open>
  Claim C6. A line read without error that is blank, a banner line, or of a field count
  other than that of the header is processed by \<open>enqueue\<close> (the read and, unless it is
  a banner line, the section under the lock) without any change to the queue, the store
  and the snapshot, the consumed rows, \<open>ready\<close>, \<open>readyc\<close>, \<open>StartStream\<close>, \<open>dequeue\<close>
  and the error channel; the terminal error is \<open>nil\<close> afterwards or what it was before.
\<close>

theorem noise_lines_leave_no_trace:
  assumes "enq s = E_read" and "pt s = (data, None) # rest"
    and "TrimSpace data = [] \<or> topRowToSkip env (TrimSpace data) \<or>
         length (Fields (TrimSpace data)) \<noteq> length (TopRowHeaders env)"
  shows "let s1 = step env Enqueue s;
             s2 = (if reading (enq s1) then step env Enqueue s1 else s1)
         in queue s2 = queue s \<and> heap s2 = heap s \<and> snapshot s2 = snapshot s \<and>
            consumed s2 = consumed s \<and> ready s2 = ready s \<and> readyc s2 = readyc s \<and>
            start s2 = start s \<and> deq s2 = deq s \<and> errc s2 = errc s \<and>
            (err s2 = None \<or> err s2 = err s) \<and>
            (\<not> holds_rmu (deq s) \<longrightarrow> enq s2 = E_guard \<and> pt s2 = rest)"
  using assms
  by (auto simp: enqueue_step_def enqueue_locked_def reading_def snapshot_def Let_def
      split: sum.splits)

theorem noise_lines_leave_no_trace_witness:
  "enq noise_state = E_read \<and> pt noise_state = (''7 1.5'', None) # [] \<and>
   length (Fields (TrimSpace ''7 1.5'')) \<noteq> length (TopRowHeaders demo_env) \<and>
   queue (if reading (enq (step demo_env Enqueue noise_state))
          then step demo_env Enqueue (step demo_env Enqueue noise_state)
          else step demo_env Enqueue noise_state) = queue noise_state \<and>
   snapshot (if reading (enq (step demo_env Enqueue noise_state))
          then step demo_env Enqueue (step demo_env Enqueue noise_state)
          else step demo_env Enqueue noise_state) = snapshot noise_state \<and>
   readyc (if reading (enq (step demo_env Enqueue noise_state))
          then step demo_env Enqueue (step demo_env Enqueue noise_state)
          else step demo_env Enqueue noise_state) = readyc noise_state"
proof -
  have h1: "enq noise_state = E_read" and h2: "pt noise_state = (''7 1.5'', None) # []"
    and h3: "length (Fields (TrimSpace ''7 1.5'')) \<noteq> length (TopRowHeaders demo_env)"
    by code_simp+
  have h3': "TrimSpace ''7 1.5'' = [] \<or> topRowToSkip demo_env (TrimSpace ''7 1.5'') \<or>
         length (Fields (TrimSpace ''7 1.5'')) \<noteq> length (TopRowHeaders demo_env)"
    using h3 by blast
  show ?thesis
    using noise_lines_leave_no_trace [OF h1 h2 h3'] h1 h2 h3
    unfolding Let_def by (auto simp del: run.simps step.simps)
qed

text \<open>
  Claim C8. Called while \<open>dequeue\<close> does not hold the lock, \<open>Latest\<close> returns a
  reference that was not allocated before, so it is not the reference of the snapshot;
  the new map equals the snapshot; every map allocated before, the snapshot among them,
  is as it was, and so is every other field of the collector. An assignment through the
  returned reference changes the new map and leaves the snapshot, the maps allocated
  before and the other fields as they were.
\<close>

theorem Latest_returns_fresh_copy:
  assumes "\<not> holds_rmu (deq s)" and "pid2TopCommandRow s < length (heap s)"
    and "distinct (map fst (snapshot s))"
  shows "\<exists>cm s'. Latest s = Some (cm, s') \<and>
           cm = length (heap s) \<and> cm \<noteq> pid2TopCommandRow s \<and>
           heap s' ! cm = snapshot s \<and>
           (\<forall>a < length (heap s). heap s' ! a = heap s ! a) \<and>
           snapshot s' = snapshot s \<and>
           s' = s\<lparr>heap := heap s'\<rparr> \<and>
           (\<forall>k v. map_of (heap (map_assign cm k v s') ! cm) = (map_of (snapshot s))(k \<mapsto> v) \<and>
                  snapshot (map_assign cm k v s') = snapshot s \<and>
                  (\<forall>a < length (heap s). heap (map_assign cm k v s') ! a = heap s ! a) \<and>
                  map_assign cm k v s' = s\<lparr>heap := heap (map_assign cm k v s')\<rparr>)"
  using assms(2)
  by (simp add: Latest_eq [OF assms] snapshot_def map_assign_def nth_append update_conv')

theorem Latest_returns_fresh_copy_witness:
  "\<not> holds_rmu (deq demo_state) \<and> pid2TopCommandRow demo_state < length (heap demo_state) \<and>
   distinct (map fst (snapshot demo_state)) \<and>
   (\<exists>cm s'. Latest demo_state = Some (cm, s') \<and> cm \<noteq> pid2TopCommandRow demo_state \<and>
      heap s' ! cm = snapshot demo_state \<and>
      snapshot (map_assign cm 5 \<lparr>PID = 5, columns = []\<rparr> s') = snapshot demo_state)"
proof -
  have h1: "\<not> holds_rmu (deq demo_state)"
    and h2: "pid2TopCommandRow demo_state < length (heap demo_state)"
    and h3: "distinct (map fst (snapshot demo_state))"
    by code_simp+
  show ?thesis
    using Latest_returns_fresh_copy [OF h1 h2 h3] h1 h2 h3 by blast
qed

text \<open>
  Claim C10, amended. \<open>close(str.readyc)\<close> is executed only by the step of \<open>dequeue\<close>
  that pops a row and stores it. If in some state of a run the terminal error is set
  while no row has been consumed and the queue is empty, then \<open>dequeue\<close> returns once
  both routines have taken their next steps, and whatever runs afterwards no row is
  consumed, the channel is never closed and \<open>StartStream\<close> does not return.
\<close>

theorem gate_shut_after_early_error:
  "let s = run env sched (new_TopStream input) in
     (\<forall>t. readyc (step env t s) \<noteq> readyc s \<longrightarrow>
        t = Dequeue \<and> deq s = D_loop \<and> queue s \<noteq> [] \<and> step env t s = dequeue_row s) \<and>
     (err s \<noteq> None \<and> queue s = [] \<and> \<not> ready s \<longrightarrow>
        deq (run env [Enqueue, Enqueue, Dequeue, Dequeue, Dequeue] s) = D_done \<and>
        (\<forall>more. \<not> ready (run env more s) \<and> readyc (run env more s) = 0 \<and>
                start (run env more s) = S_recv \<and> consumed (run env more s) = []))"
proof -
  define s where "s = run env sched (new_TopStream input)"
  have inv: "collector_inv env (rows_of env input) s"
    unfolding s_def by (rule inv_reachable)
  have only: "t = Dequeue \<and> deq s = D_loop \<and> queue s \<noteq> [] \<and> step env t s = dequeue_row s"
    if "readyc (step env t s) \<noteq> readyc s" for t
    using readyc_step [OF that] by blast
  have shut: "\<not> ready (run env more s) \<and> readyc (run env more s) = 0 \<and>
                start (run env more s) = S_recv \<and> consumed (run env more s) = []"
    if "err s \<noteq> None" "queue s = []" "\<not> ready s" for more
  proof -
    from inv that have "gate_shut s"
      by (cases "start s") (auto simp: collector_inv_def gate_shut_def)
    then have "gate_shut (run env more s)" by (rule gate_shut_run)
    then show ?thesis by (simp add: gate_shut_def)
  qed
  have out: "deq (run env [Enqueue, Enqueue, Dequeue, Dequeue, Dequeue] s) = D_done"
    if "err s \<noteq> None" "queue s = []"
    using dequeue_exits [OF inv that] .
  show ?thesis
    using only shut out unfolding s_def [symmetric] Let_def by blast
qed

theorem gate_shut_after_early_error_witness:
  "err (run demo_env [Enqueue, Enqueue, Enqueue] (new_TopStream failed_start_lines)) \<noteq> None \<and>
   queue (run demo_env [Enqueue, Enqueue, Enqueue] (new_TopStream failed_start_lines)) = [] \<and>
   \<not> ready (run demo_env [Enqueue, Enqueue, Enqueue] (new_TopStream failed_start_lines)) \<and>
   readyc (run demo_env [Dequeue, Dequeue, Dequeue, Enqueue, Enqueue, Start]
     (run demo_env [Enqueue, Enqueue, Enqueue] (new_TopStream failed_start_lines))) = 0 \<and>
   start (run demo_env [Dequeue, Dequeue, Dequeue, Enqueue, Enqueue, Start]
     (run demo_env [Enqueue, Enqueue, Enqueue] (new_TopStream failed_start_lines))) = S_recv"
proof -
  have h: "err (run demo_env [Enqueue, Enqueue, Enqueue] (new_TopStream failed_start_lines)) \<noteq> None \<and>
   queue (run demo_env [Enqueue, Enqueue, Enqueue] (new_TopStream failed_start_lines)) = [] \<and>
   \<not> ready (run demo_env [Enqueue, Enqueue, Enqueue] (new_TopStream failed_start_lines))"
    by code_simp
  show ?thesis
    using gate_shut_after_early_error [of demo_env "[Enqueue, Enqueue, Enqueue]" failed_start_lines] h
    unfolding Let_def by blast
qed

text \<open>
  Claim C10 as stated fails. A row is queued, then the read error is set, all before
  \<open>dequeue\<close> takes the lock: the error is set before any row is consumed, yet \<open>dequeue\<close>
  consumes the queued row, closes \<open>readyc\<close> and returns, and \<open>StartStream\<close> returns.
\<close>

theorem readiness_after_error_counterexample:
  "err (run demo_env [Enqueue, Enqueue, Enqueue, Enqueue, Enqueue, Enqueue]
         (new_TopStream early_error_lines)) = Some ''EOF'' \<and>
   consumed (run demo_env [Enqueue, Enqueue, Enqueue, Enqueue, Enqueue, Enqueue]
         (new_TopStream early_error_lines)) = [] \<and>
   readyc (run demo_env [Enqueue, Enqueue, Enqueue, Enqueue, Enqueue, Enqueue]
         (new_TopStream early_error_lines)) = 0 \<and>
   readyc (run demo_env [Enqueue, Enqueue, Enqueue, Enqueue, Enqueue, Enqueue, Dequeue, Dequeue,
         Dequeue, Dequeue, Start] (new_TopStream early_error_lines)) = 1 \<and>
   deq (run demo_env [Enqueue, Enqueue, Enqueue, Enqueue, Enqueue, Enqueue, Dequeue, Dequeue,
         Dequeue, Dequeue, Start] (new_TopStream early_error_lines)) = D_done \<and>
   start (run demo_env [Enqueue, Enqueue, Enqueue, Enqueue, Enqueue, Enqueue, Dequeue, Dequeue,
         Dequeue, Dequeue, Start] (new_TopStream early_error_lines)) = S_returned"
  by code_simp

section \<open>The claims about the query\<close>

text \<open>
  Claim C5. For every filter with a positive \<open>TopLimit\<close> and every schedule of the
  workers, the list \<open>GetSS\<close> returns is no longer than \<open>TopLimit\<close>. With a protocol
  family on, \<open>GetSS\<close> does return once every worker has taken its steps.
\<close>

theorem GetSS_respects_TopLimit:
  assumes "0 < TopLimit ft"
  shows "(GetSS env ft sched = Some (es, e) \<longrightarrow> int (length es) \<le> TopLimit ft) \<and>
         (TCP ft \<or> TCP6 ft \<longrightarrow>
            (\<exists>r. GetSS env ft (to_completion (worker_count env ft)) = Some r))"
  using assms GetSS_returns [of ft env]
  by (auto simp: GetSS_def truncate_top_def Let_def split: sum.splits if_splits)

theorem GetSS_respects_TopLimit_witness:
  "0 < TopLimit demo_filter \<and>
   GetSS demo_os demo_filter [0, 1, 0, 1, 0, 1] =
     Some ([demo_entry], None) \<and>
   length (sss (ss_run demo_os demo_filter [0, 1, 0, 1, 0, 1]
       \<lparr>sss = [], ss_wg = 2, workers = spawn demo_filter [10], crashed = False, ss_mode = Direct\<rparr>)) = 2 \<and>
   int (length [demo_entry]) \<le> TopLimit demo_filter"
proof -
  have h1: "0 < TopLimit demo_filter" by code_simp
  have h2: "GetSS demo_os demo_filter [0, 1, 0, 1, 0, 1] =
     Some ([demo_entry], None)"
    by code_simp
  have h3: "length (sss (ss_run demo_os demo_filter [0, 1, 0, 1, 0, 1]
       \<lparr>sss = [], ss_wg = 2, workers = spawn demo_filter [10], crashed = False, ss_mode = Direct\<rparr>)) = 2"
    by code_simp
  show ?thesis
    using GetSS_respects_TopLimit [OF h1, of demo_os "[0, 1, 0, 1, 0, 1]" "[demo_entry]" None]
      h1 h2 h3 by blast
qed

text \<open>
  Claim C7. When the local-port filter is set (positive), every entry \<open>GetSS\<close> returns
  has that local port, and likewise for the remote port, under every schedule of the
  workers; and so has every entry \<open>getSSEntry\<close> returns.
\<close>

theorem GetSS_port_filters:
  "(GetSS env ft sched = Some (es, e) \<longrightarrow>
      (\<forall>x \<in> set es. (0 < ft_LocalPort ft \<longrightarrow> LocalPort x = ft_LocalPort ft) \<and>
                     (0 < ft_RemotePort ft \<longrightarrow> RemotePort x = ft_RemotePort ft))) \<and>
   (getSSEntry env pid tp lport rport = Inr ents \<longrightarrow>
      (\<forall>x \<in> set ents. (0 < lport \<longrightarrow> LocalPort x = lport) \<and> (0 < rport \<longrightarrow> RemotePort x = rport)))"
proof -
  have a: "ports_match (ft_LocalPort ft) (ft_RemotePort ft) es" if "GetSS env ft sched = Some (es, e)"
  proof (cases "GetSS_start env ft")
    case (Inl err)
    with that show ?thesis by (simp add: GetSS_def ports_match_def)
  next
    case (Inr s0)
    then have "ports_inv ft (ss_run env ft sched s0)"
      by (intro ports_inv_run ports_inv_start)
    then have "ports_match (ft_LocalPort ft) (ft_RemotePort ft) (truncate_top ft (sss (ss_run env ft sched s0)))"
      by (intro ports_match_take) (simp add: ports_inv_def)
    with that Inr show ?thesis by (auto simp: GetSS_def Let_def split: if_splits)
  qed
  have b: "ports_match lport rport ents" if "getSSEntry env pid tp lport rport = Inr ents"
    using that by (rule getSSEntry_ports)
  show ?thesis using a b unfolding ports_match_def by blast
qed

theorem GetSS_port_filters_witness:
  "0 < ft_LocalPort demo_filter \<and>
   GetSS demo_os demo_filter [0, 0, 0, 1, 1, 1] = Some ([demo_entry], None) \<and>
   LocalPort demo_entry = ft_LocalPort demo_filter \<and>
   getSSEntry demo_os 10 TypeTCP 22 0 = Inr [demo_entry] \<and>
   LocalPort demo_entry = 22"
proof -
  have h1: "0 < ft_LocalPort demo_filter" by code_simp
  have h2: "GetSS demo_os demo_filter [0, 0, 0, 1, 1, 1] = Some ([demo_entry], None)"
    by code_simp
  have h3: "getSSEntry demo_os 10 TypeTCP 22 0 = Inr [demo_entry]"
    by code_simp
  have z: "(0::int) < 22" by simp
  show ?thesis
    using GetSS_port_filters [of demo_os demo_filter "[0, 0, 0, 1, 1, 1]" "[demo_entry]" None
        10 TypeTCP 22 0 "[demo_entry]"] h1 h2 h3 z
    by auto
qed

text \<open>
  Claim C9. When the switch resolves a non-empty list of process ids and both \<open>TCP\<close> and
  \<open>TCP6\<close> are off, \<open>GetSS\<close> adds the number of ids to the wait group and starts no
  worker, and under every schedule \<open>wg.Wait()\<close> does not return.
\<close>

theorem GetSS_blocks_without_protocol:
  assumes "candidates env ft = Inr pids" and "pids \<noteq> []" and "\<not> TCP ft" and "\<not> TCP6 ft"
  shows "GetSS_start env ft =
           Inr \<lparr>sss = [], ss_wg = int (length pids), workers = [], crashed = False, ss_mode = Direct\<rparr> \<and>
         GetSS env ft sched = None"
proof -
  have st: "GetSS_start env ft =
           Inr \<lparr>sss = [], ss_wg = int (length pids), workers = [], crashed = False, ss_mode = Direct\<rparr>"
    using assms by (simp add: GetSS_start_def spawn_none wg_added_def)
  then show ?thesis
    using assms(2) by (simp add: GetSS_def no_workers_run)
qed

theorem GetSS_blocks_without_protocol_witness:
  "candidates demo_os no_family_filter = Inr [10] \<and> [10] \<noteq> ([] :: int list) \<and>
   \<not> TCP no_family_filter \<and> \<not> TCP6 no_family_filter \<and>
   GetSS demo_os no_family_filter [0, 1, 0, 1] = None \<and>
   GetSS demo_os no_family_filter [] = None"
proof -
  have h1: "candidates demo_os no_family_filter = Inr [10]"
    and h3: "\<not> TCP no_family_filter" and h4: "\<not> TCP6 no_family_filter" by code_simp+
  have h2: "[10] \<noteq> ([] :: int list)" by simp
  show ?thesis
    using GetSS_blocks_without_protocol [OF h1 h2 h3 h4, of "[0, 1, 0, 1]"]
      GetSS_blocks_without_protocol [OF h1 h2 h3 h4, of "[]"] h1 h3 h4
    by simp
qed

end
